theory Spec2Isabelle
  imports Complex_Main "HOL-Library.Multiset"
begin

section \<open>Data model\<close>

text \<open>
  The C code works on \<^verbatim>\<open>double\<close> arrays. A \<^verbatim>\<open>double**\<close> matrix made by
  \<^verbatim>\<open>alloc2d\<close> is one contiguous block addressed as \<^verbatim>\<open>[row][column]\<close>; it is a list of
  rows here. Doubles are modelled by \<^typ>\<open>real\<close>: arithmetic is exact and there is neither
  NaN nor infinity nor a negative zero. In HOL a quotient with divisor 0 is 0, where the
  code gets an infinity or a NaN: where \<^verbatim>\<open>svd_sort\<close> divides by a value that may be zero and
  then compares, the IEEE outcome of that comparison is written out (\<open>quot_below\<close>); the
  other theorems either exclude a zero divisor or do not depend on the value of a quotient.
  Arrays are lists; the theorems state the shapes they need.
\<close>

type_synonym vector = "real list"
type_synonym matrix = "real list list"

definition SVD_NMAX :: nat where
  "SVD_NMAX = 40"

definition SVD_EPS :: real where
  "SVD_EPS = 4 / 10 ^ 15"

datatype error = InvalidSize | AssertionFailed | NoConvergence | OutOfBounds

text \<open>\<^verbatim>\<open>typedef struct { double* v; int i; } indexedvalue\<close>: the pointer \<^verbatim>\<open>v\<close> is only
  ever dereferenced, and the vector it points into is not written while the entries are
  being sorted, so the entry carries the pointed-to value.\<close>

record indexedvalue =
  iv_v :: real
  iv_i :: nat

definition cmp_iv :: "indexedvalue \<Rightarrow> indexedvalue \<Rightarrow> int" where
  "cmp_iv p1 p2 =
     (let v1 = iv_v p1; v2 = iv_v p2
      in if v1 > v2 then - 1 else if v1 < v2 then 1 else 0)"

section \<open>The library sort\<close>

text \<open>
  \<^verbatim>\<open>qsort\<close> belongs to the C library, not to this repository, so \<open>sortvector\<close> and
  \<open>svd_sort\<close> take it as a parameter. What ISO C promises of it is \<open>qsort_conforms\<close>:
  the array is rearranged (same elements) into ascending order of the comparison function;
  the order of elements that compare equal is unspecified.
\<close>

type_synonym qsort_fn = "(indexedvalue \<Rightarrow> indexedvalue \<Rightarrow> int) \<Rightarrow> indexedvalue list \<Rightarrow> indexedvalue list"

definition qsort_conforms :: "qsort_fn \<Rightarrow> bool" where
  "qsort_conforms qs \<longleftrightarrow>
     (\<forall>xs. mset (qs cmp_iv xs) = mset xs \<and> sorted_wrt (\<lambda>a b. cmp_iv a b \<le> 0) (qs cmp_iv xs))"

text \<open>Two implementations a C library may ship, both insertion sorts. The first puts an
  element in front of the elements it compares equal to, which keeps ties in their
  original order; the second puts it behind them, which reverses ties.\<close>

fun insert_front :: "('e \<Rightarrow> 'e \<Rightarrow> int) \<Rightarrow> 'e \<Rightarrow> 'e list \<Rightarrow> 'e list" where
  "insert_front cmp x [] = [x]"
| "insert_front cmp x (y # ys) =
     (if cmp x y \<le> 0 then x # y # ys else y # insert_front cmp x ys)"

fun insert_behind :: "('e \<Rightarrow> 'e \<Rightarrow> int) \<Rightarrow> 'e \<Rightarrow> 'e list \<Rightarrow> 'e list" where
  "insert_behind cmp x [] = [x]"
| "insert_behind cmp x (y # ys) =
     (if cmp x y < 0 then x # y # ys else y # insert_behind cmp x ys)"

definition qsort_stable :: "('e \<Rightarrow> 'e \<Rightarrow> int) \<Rightarrow> 'e list \<Rightarrow> 'e list" where
  "qsort_stable cmp xs = foldr (insert_front cmp) xs []"

definition qsort_reversing :: "('e \<Rightarrow> 'e \<Rightarrow> int) \<Rightarrow> 'e list \<Rightarrow> 'e list" where
  "qsort_reversing cmp xs = foldr (insert_behind cmp) xs []"

section \<open>sortvector and svd_sort\<close>

text \<open>\<^verbatim>\<open>static void sortvector(int n, double* v, int* pos)\<close>. The caller's \<^verbatim>\<open>pos\<close> has
  \<^verbatim>\<open>n\<close> cells and the last loop writes every one of them, so the new contents of
  \<^verbatim>\<open>pos\<close> are returned; for \<^verbatim>\<open>n <= 0\<close> the function returns at once and \<^verbatim>\<open>pos\<close> keeps
  what it held.\<close>

definition sortvector :: "qsort_fn \<Rightarrow> int \<Rightarrow> vector \<Rightarrow> nat list \<Rightarrow> nat list" where
  "sortvector qs n v pos =
     (if n \<le> 0 then pos
      else let iv = map (\<lambda>i. \<lparr>iv_v = v ! i, iv_i = i\<rparr>) [0..<nat n];
               iv' = qs cmp_iv iv
           in map iv_i iv')"

text \<open>The test \<^verbatim>\<open>x / y < e\<close> of the C code. For \<open>y = 0\<close> the IEEE quotient is
  \<open>+\<infinity>\<close>, NaN or \<open>-\<infinity>\<close> as \<open>x\<close> is positive, zero or negative, and only the last
  is below \<open>e\<close>.\<close>

definition quot_below :: "real \<Rightarrow> real \<Rightarrow> real \<Rightarrow> bool" where
  "quot_below x y e = (if y = 0 then x < 0 else x / y < e)"

record triad =
  mat_A :: matrix
  vec_w :: vector
  mat_V :: matrix

text \<open>\<^verbatim>\<open>M[j][i] = v\<close>; a write outside the matrix is undefined behaviour in C and leaves
  the model's matrix unchanged.\<close>

definition mat_set :: "matrix \<Rightarrow> nat \<Rightarrow> nat \<Rightarrow> real \<Rightarrow> matrix" where
  "mat_set M j i v = M[j := (M ! j)[i := v]]"

text \<open>The body of the loop \<^verbatim>\<open>for (i = 0; i < n; ++i)\<close> of \<^verbatim>\<open>svd_sort\<close>.\<close>

definition sort_body ::
    "nat \<Rightarrow> nat \<Rightarrow> vector \<Rightarrow> matrix \<Rightarrow> matrix \<Rightarrow> nat list \<Rightarrow> real \<Rightarrow> nat \<Rightarrow> triad \<Rightarrow> triad" where
  "sort_body n m wold aold vold pos wmax i t =
     (let w1 = (vec_w t)[i := wold ! (pos ! i)];
          w2 = (if quot_below (w1 ! i) wmax SVD_EPS then w1[i := 0] else w1);
          A' = fold (\<lambda>j A. mat_set A j i (aold ! j ! (pos ! i))) [0..<m] (mat_A t);
          V' = fold (\<lambda>j V. mat_set V j i (vold ! j ! (pos ! i))) [0..<n] (mat_V t)
      in \<lparr>mat_A = A', vec_w = w2, mat_V = V'\<rparr>)"

text \<open>\<^verbatim>\<open>void svd_sort(double** A, int n, int m, double* w, double** V)\<close>. \<^verbatim>\<open>alloc2d\<close>
  quits on a dimension that is not positive. \<^verbatim>\<open>pos\<close> is fresh from \<^verbatim>\<open>malloc\<close>; since
  \<open>n > 0\<close> here, \<open>sortvector\<close> overwrites all of it.\<close>

definition svd_sort :: "qsort_fn \<Rightarrow> int \<Rightarrow> int \<Rightarrow> triad \<Rightarrow> error + triad" where
  "svd_sort qs n m t =
     (if n \<le> 0 \<or> m \<le> 0 then Inl InvalidSize
      else let wold = vec_w t; aold = mat_A t; vold = mat_V t;
               pos = sortvector qs n (vec_w t) [];
               wmax = vec_w t ! (pos ! 0)
           in Inr (fold (sort_body (nat n) (nat m) wold aold vold pos wmax) [0..<nat n] t))"

text \<open>A triad of the shapes the code expects: \<open>A\<close> is \<open>m \<times> n\<close>, \<open>w\<close> has \<open>n\<close> entries,
  \<open>V\<close> is \<open>n \<times> n\<close>.\<close>

definition is_matrix :: "nat \<Rightarrow> nat \<Rightarrow> matrix \<Rightarrow> bool" where
  "is_matrix rows cols M \<longleftrightarrow> length M = rows \<and> (\<forall>r \<in> set M. length r = cols)"

definition triad_ok :: "nat \<Rightarrow> nat \<Rightarrow> triad \<Rightarrow> bool" where
  "triad_ok n m t \<longleftrightarrow> is_matrix m n (mat_A t) \<and> length (vec_w t) = n \<and> is_matrix n n (mat_V t)"

text \<open>The triad after the first \<open>k\<close> rounds of the loop of \<open>svd_sort\<close>.\<close>

definition sorted_upto ::
    "nat \<Rightarrow> nat \<Rightarrow> vector \<Rightarrow> matrix \<Rightarrow> matrix \<Rightarrow> nat list \<Rightarrow> real \<Rightarrow> nat \<Rightarrow> triad \<Rightarrow> triad" where
  "sorted_upto n m wold aold vold pos wmax k t =
     \<lparr>mat_A = map (\<lambda>j. map (\<lambda>c. if c < k then aold ! j ! (pos ! c) else mat_A t ! j ! c) [0..<n]) [0..<m],
      vec_w = map (\<lambda>c. if c < k then (if quot_below (wold ! (pos ! c)) wmax SVD_EPS then 0 else wold ! (pos ! c))
                        else vec_w t ! c) [0..<n],
      mat_V = map (\<lambda>j. map (\<lambda>c. if c < k then vold ! j ! (pos ! c) else mat_V t ! j ! c) [0..<n]) [0..<n]\<rparr>"

text \<open>Stability as the specification words it: of two indices \<open>i < j\<close> with
  \<open>w[i] = w[j]\<close>, index \<open>i\<close> comes before index \<open>j\<close> in the sorted order \<open>pos\<close>.\<close>

definition ties_keep_order :: "vector \<Rightarrow> nat list \<Rightarrow> bool" where
  "ties_keep_order w pos \<longleftrightarrow>
     (\<forall>i j. i < j \<and> j < length w \<and> w ! i = w ! j \<longrightarrow>
            (\<exists>a b. a < b \<and> b < length pos \<and> pos ! a = i \<and> pos ! b = j))"

section \<open>svd_invs\<close>

text \<open>The arrays \<^verbatim>\<open>svd_invs\<close> can see: its four array arguments and its scratch matrix
  \<^verbatim>\<open>vtemp\<close>. Every assignment of the C function is an update of the field it writes.\<close>

record invs_state =
  st_AT :: matrix
  st_A :: matrix
  st_w :: vector
  st_V :: matrix
  st_vtemp :: matrix

text \<open>\<^verbatim>\<open>vtemp[j][i] = V[j][i] / w[i]\<close>, for \<open>j = 0 .. n-1\<close>.\<close>

definition invs_scale_column :: "nat \<Rightarrow> nat \<Rightarrow> invs_state \<Rightarrow> invs_state" where
  "invs_scale_column n i s =
     fold (\<lambda>j s. s\<lparr>st_vtemp := mat_set (st_vtemp s) j i (st_V s ! j ! i / st_w s ! i)\<rparr>) [0..<n] s"

text \<open>\<^verbatim>\<open>AT[i][j] = 0.; for (k = 0; k < mnmin; ++k) AT[i][j] += vtemp[i][k] * A[j][k];\<close>\<close>

definition invs_entry :: "nat \<Rightarrow> nat \<Rightarrow> nat \<Rightarrow> invs_state \<Rightarrow> invs_state" where
  "invs_entry mnmin i j s =
     fold (\<lambda>k s. s\<lparr>st_AT := mat_set (st_AT s) i j (st_AT s ! i ! j + st_vtemp s ! i ! k * st_A s ! j ! k)\<rparr>)
       [0..<mnmin] (s\<lparr>st_AT := mat_set (st_AT s) i j 0\<rparr>)"

definition invs_row :: "nat \<Rightarrow> nat \<Rightarrow> nat \<Rightarrow> invs_state \<Rightarrow> invs_state" where
  "invs_row m mnmin i s = fold (invs_entry mnmin i) [0..<m] s"

text \<open>\<^verbatim>\<open>void svd_invs(double** AT, double** A, int n, int m, double* w, double** V)\<close>.
  \<^verbatim>\<open>alloc2d(n, n, ...)\<close> quits when \<open>n\<close> is not positive; \<^verbatim>\<open>memcpy\<close> fills \<^verbatim>\<open>vtemp\<close> with
  the \<open>n \<times> n\<close> block of \<open>V\<close>. For \<open>m \<le> 0\<close> no loop body runs.\<close>

definition svd_invs :: "matrix \<Rightarrow> matrix \<Rightarrow> int \<Rightarrow> int \<Rightarrow> vector \<Rightarrow> matrix \<Rightarrow> error + invs_state" where
  "svd_invs AT A n m w V =
     (if n \<le> 0 then Inl InvalidSize
      else let s0 = \<lparr>st_AT = AT, st_A = A, st_w = w, st_V = V, st_vtemp = V\<rparr>;
               mnmin = (if n < m then n else m);
               s1 = fold (invs_scale_column (nat n)) [0..<nat mnmin] s0;
               s2 = fold (invs_row (nat m) (nat mnmin)) [0..<nat n] s1
           in Inr s2)"

text \<open>The arrays \<^verbatim>\<open>svd_invs\<close> only reads hold what they held at the call.\<close>

definition invs_frame :: "matrix \<Rightarrow> vector \<Rightarrow> matrix \<Rightarrow> invs_state \<Rightarrow> bool" where
  "invs_frame A w V s \<longleftrightarrow> st_A s = A \<and> st_w s = w \<and> st_V s = V"

text \<open>The state after the first \<open>k\<close> columns of \<open>vtemp\<close> have been scaled.\<close>

definition scaled_upto :: "nat \<Rightarrow> nat \<Rightarrow> invs_state \<Rightarrow> invs_state" where
  "scaled_upto n k s =
     s\<lparr>st_vtemp := map (\<lambda>j. map (\<lambda>c. if c < k then st_V s ! j ! c / st_w s ! c else st_V s ! j ! c) [0..<n]) [0..<n]\<rparr>"

section \<open>svd\<close>

text \<open>The functions of \<^verbatim>\<open>math.h\<close> the decomposition calls, on reals. \<^verbatim>\<open>copysign\<close> gives its
  first argument the sign of the second; a negative zero does not exist here, so a second
  argument 0 counts as positive.\<close>

definition copysign :: "real \<Rightarrow> real \<Rightarrow> real" where
  "copysign x y = (if y < 0 then - \<bar>x\<bar> else \<bar>x\<bar>)"

definition hypot :: "real \<Rightarrow> real \<Rightarrow> real" where
  "hypot x y = sqrt (x * x + y * y)"

text \<open>
  The variables of \<^verbatim>\<open>svd\<close>: the arrays \<^verbatim>\<open>A\<close>, \<^verbatim>\<open>V\<close>, \<^verbatim>\<open>w\<close>, \<^verbatim>\<open>rv1\<close> and the locals
  \<^verbatim>\<open>l, tst1, c, f, g, h, s, scale\<close> of the function, \<^verbatim>\<open>x, y, z, l1, docancellation\<close> of the
  body of its \<^verbatim>\<open>while\<close> loop. Each assignment of the C code is an update of one field. The
  loop counters \<^verbatim>\<open>i, j, k, i1\<close> are the arguments of the loop bodies.
\<close>

record svd_state =
  a_A :: matrix
  a_V :: matrix
  a_w :: vector
  a_rv1 :: vector
  v_l :: nat
  v_tst1 :: real
  v_c :: real
  v_f :: real
  v_g :: real
  v_h :: real
  v_s :: real
  v_scale :: real
  v_x :: real
  v_y :: real
  v_z :: real
  v_l1 :: int
  v_docancel :: bool

subsection \<open>Householder reduction to bidiagonal form\<close>

text \<open>\<^verbatim>\<open>for (k = i; k < m; k++) scale += fabs(A[k][i]);\<close>\<close>

definition hh_col_norm :: "nat \<Rightarrow> nat \<Rightarrow> svd_state \<Rightarrow> svd_state" where
  "hh_col_norm m i st = fold (\<lambda>k st. st\<lparr>v_scale := v_scale st + \<bar>a_A st ! k ! i\<bar>\<rparr>) [i..<m] st"

text \<open>\<^verbatim>\<open>for (k = i; k < m; k++) { A[k][i] /= scale; s += A[k][i] * A[k][i]; }\<close>\<close>

definition hh_col_normalize :: "nat \<Rightarrow> nat \<Rightarrow> svd_state \<Rightarrow> svd_state" where
  "hh_col_normalize m i st =
     fold (\<lambda>k st.
        let st = st\<lparr>a_A := mat_set (a_A st) k i (a_A st ! k ! i / v_scale st)\<rparr>
        in st\<lparr>v_s := v_s st + a_A st ! k ! i * a_A st ! k ! i\<rparr>) [i..<m] st"

text \<open>\<^verbatim>\<open>for (j = l; j < n; j++) { s = 0.0; for (k ...) s += A[k][i] * A[k][j]; f = s / h;
  for (k ...) A[k][j] += f * A[k][i]; }\<close>\<close>

definition hh_col_apply :: "nat \<Rightarrow> nat \<Rightarrow> nat \<Rightarrow> svd_state \<Rightarrow> svd_state" where
  "hh_col_apply n m i st =
     fold (\<lambda>j st.
        let st = st\<lparr>v_s := 0\<rparr>;
            st = fold (\<lambda>k st. st\<lparr>v_s := v_s st + a_A st ! k ! i * a_A st ! k ! j\<rparr>) [i..<m] st;
            st = st\<lparr>v_f := v_s st / v_h st\<rparr>
        in fold (\<lambda>k st. st\<lparr>a_A := mat_set (a_A st) k j (a_A st ! k ! j + v_f st * a_A st ! k ! i)\<rparr>) [i..<m] st)
       [v_l st..<n] st"

text \<open>\<^verbatim>\<open>for (k = i; k < m; k++) A[k][i] *= scale;\<close>\<close>

definition hh_col_rescale :: "nat \<Rightarrow> nat \<Rightarrow> svd_state \<Rightarrow> svd_state" where
  "hh_col_rescale m i st =
     fold (\<lambda>k st. st\<lparr>a_A := mat_set (a_A st) k i (a_A st ! k ! i * v_scale st)\<rparr>) [i..<m] st"

text \<open>The block \<^verbatim>\<open>if (i < m) { ... }\<close>: the reflection that clears column \<open>i\<close> below the
  diagonal.\<close>

definition hh_col :: "nat \<Rightarrow> nat \<Rightarrow> nat \<Rightarrow> svd_state \<Rightarrow> svd_state" where
  "hh_col n m i st =
     (let st = hh_col_norm m i st
      in if v_scale st \<noteq> 0 then
           (let st = hh_col_normalize m i st;
                st = st\<lparr>v_f := a_A st ! i ! i\<rparr>;
                st = st\<lparr>v_g := - copysign (sqrt (v_s st)) (v_f st)\<rparr>;
                st = st\<lparr>v_h := v_f st * v_g st - v_s st\<rparr>;
                st = st\<lparr>a_A := mat_set (a_A st) i i (v_f st - v_g st)\<rparr>;
                st = (if i < n - 1 then hh_col_apply n m i st else st)
            in hh_col_rescale m i st)
         else st)"

text \<open>\<^verbatim>\<open>for (k = l; k < n; k++) scale += fabs(A[i][k]);\<close>\<close>

definition hh_row_norm :: "nat \<Rightarrow> nat \<Rightarrow> svd_state \<Rightarrow> svd_state" where
  "hh_row_norm n i st = fold (\<lambda>k st. st\<lparr>v_scale := v_scale st + \<bar>a_A st ! i ! k\<bar>\<rparr>) [v_l st..<n] st"

text \<open>\<^verbatim>\<open>for (k = l; k < n; k++) { A[i][k] /= scale; s += A[i][k] * A[i][k]; }\<close>\<close>

definition hh_row_normalize :: "nat \<Rightarrow> nat \<Rightarrow> svd_state \<Rightarrow> svd_state" where
  "hh_row_normalize n i st =
     fold (\<lambda>k st.
        let st = st\<lparr>a_A := mat_set (a_A st) i k (a_A st ! i ! k / v_scale st)\<rparr>
        in st\<lparr>v_s := v_s st + a_A st ! i ! k * a_A st ! i ! k\<rparr>) [v_l st..<n] st"

text \<open>\<^verbatim>\<open>for (k = l; k < n; k++) rv1[k] = A[i][k] / h;\<close>\<close>

definition hh_row_store :: "nat \<Rightarrow> nat \<Rightarrow> svd_state \<Rightarrow> svd_state" where
  "hh_row_store n i st =
     fold (\<lambda>k st. st\<lparr>a_rv1 := (a_rv1 st)[k := a_A st ! i ! k / v_h st]\<rparr>) [v_l st..<n] st"

text \<open>\<^verbatim>\<open>for (j = l; j < m; j++) { s = 0.0; for (k ...) s += A[j][k] * A[i][k];
  for (k ...) A[j][k] += s * rv1[k]; }\<close>\<close>

definition hh_row_apply :: "nat \<Rightarrow> nat \<Rightarrow> nat \<Rightarrow> svd_state \<Rightarrow> svd_state" where
  "hh_row_apply n m i st =
     fold (\<lambda>j st.
        let st = st\<lparr>v_s := 0\<rparr>;
            st = fold (\<lambda>k st. st\<lparr>v_s := v_s st + a_A st ! j ! k * a_A st ! i ! k\<rparr>) [v_l st..<n] st
        in fold (\<lambda>k st. st\<lparr>a_A := mat_set (a_A st) j k (a_A st ! j ! k + v_s st * a_rv1 st ! k)\<rparr>) [v_l st..<n] st)
       [v_l st..<m] st"

text \<open>\<^verbatim>\<open>for (k = l; k < n; k++) A[i][k] *= scale;\<close>\<close>

definition hh_row_rescale :: "nat \<Rightarrow> nat \<Rightarrow> svd_state \<Rightarrow> svd_state" where
  "hh_row_rescale n i st =
     fold (\<lambda>k st. st\<lparr>a_A := mat_set (a_A st) i k (a_A st ! i ! k * v_scale st)\<rparr>) [v_l st..<n] st"

text \<open>The block \<^verbatim>\<open>if (i < m && i < n - 1) { ... }\<close>: the reflection that clears row \<open>i\<close> right
  of the superdiagonal.\<close>

definition hh_row :: "nat \<Rightarrow> nat \<Rightarrow> nat \<Rightarrow> svd_state \<Rightarrow> svd_state" where
  "hh_row n m i st =
     (let st = hh_row_norm n i st
      in if v_scale st \<noteq> 0 then
           (let st = hh_row_normalize n i st;
                st = st\<lparr>v_f := a_A st ! i ! v_l st\<rparr>;
                st = st\<lparr>v_g := - copysign (sqrt (v_s st)) (v_f st)\<rparr>;
                st = st\<lparr>v_h := v_f st * v_g st - v_s st\<rparr>;
                st = st\<lparr>a_A := mat_set (a_A st) i (v_l st) (v_f st - v_g st)\<rparr>;
                st = hh_row_store n i st;
                st = hh_row_apply n m i st
            in hh_row_rescale n i st)
         else st)"

text \<open>The body of \<^verbatim>\<open>for (i = 0; i < n; i++)\<close>.\<close>

definition householder_step :: "nat \<Rightarrow> nat \<Rightarrow> nat \<Rightarrow> svd_state \<Rightarrow> svd_state" where
  "householder_step n m i st =
     (let st = st\<lparr>v_l := i + 1\<rparr>;
          st = st\<lparr>a_rv1 := (a_rv1 st)[i := v_scale st * v_g st]\<rparr>;
          st = st\<lparr>v_g := 0, v_s := 0, v_scale := 0\<rparr>;
          st = (if i < m then hh_col n m i st else st);
          st = st\<lparr>a_w := (a_w st)[i := v_scale st * v_g st]\<rparr>;
          st = st\<lparr>v_g := 0, v_s := 0, v_scale := 0\<rparr>;
          st = (if i < m \<and> i < n - 1 then hh_row n m i st else st);
          tmp = \<bar>a_w st ! i\<bar> + \<bar>a_rv1 st ! i\<bar>
      in st\<lparr>v_tst1 := (if v_tst1 st > tmp then v_tst1 st else tmp)\<rparr>)"

definition householder :: "nat \<Rightarrow> nat \<Rightarrow> svd_state \<Rightarrow> svd_state" where
  "householder n m st =
     fold (householder_step n m) [0..<n] (st\<lparr>v_g := 0, v_scale := 0, v_tst1 := 0\<rparr>)"

subsection \<open>Accumulation of right-hand transformations\<close>

text \<open>\<^verbatim>\<open>for (j = l; j < n; j++) V[j][i] = (A[i][j] / A[i][l]) / g;\<close>\<close>

definition rt_init :: "nat \<Rightarrow> nat \<Rightarrow> svd_state \<Rightarrow> svd_state" where
  "rt_init n i st =
     fold (\<lambda>j st. st\<lparr>a_V := mat_set (a_V st) j i ((a_A st ! i ! j / a_A st ! i ! v_l st) / v_g st)\<rparr>)
       [v_l st..<n] st"

text \<open>\<^verbatim>\<open>for (j = l; j < n; j++) { s = 0.0; for (k ...) s += A[i][k] * V[k][j];
  for (k ...) V[k][j] += s * V[k][i]; }\<close>\<close>

definition rt_apply :: "nat \<Rightarrow> nat \<Rightarrow> svd_state \<Rightarrow> svd_state" where
  "rt_apply n i st =
     fold (\<lambda>j st.
        let st = st\<lparr>v_s := 0\<rparr>;
            st = fold (\<lambda>k st. st\<lparr>v_s := v_s st + a_A st ! i ! k * a_V st ! k ! j\<rparr>) [v_l st..<n] st
        in fold (\<lambda>k st. st\<lparr>a_V := mat_set (a_V st) k j (a_V st ! k ! j + v_s st * a_V st ! k ! i)\<rparr>) [v_l st..<n] st)
       [v_l st..<n] st"

text \<open>\<^verbatim>\<open>for (j = l; j < n; j++) { V[i][j] = 0.0; V[j][i] = 0.0; }\<close>\<close>

definition rt_clear :: "nat \<Rightarrow> nat \<Rightarrow> svd_state \<Rightarrow> svd_state" where
  "rt_clear n i st =
     fold (\<lambda>j st.
        let st = st\<lparr>a_V := mat_set (a_V st) i j 0\<rparr>
        in st\<lparr>a_V := mat_set (a_V st) j i 0\<rparr>) [v_l st..<n] st"

text \<open>The body of \<^verbatim>\<open>for (i = n - 1; i >= 0; i--)\<close>.\<close>

definition right_step :: "nat \<Rightarrow> nat \<Rightarrow> svd_state \<Rightarrow> svd_state" where
  "right_step n i st =
     (let st = (if i < n - 1 then
                  (let st = (if v_g st \<noteq> 0 then rt_apply n i (rt_init n i st) else st)
                   in rt_clear n i st)
                else st);
          st = st\<lparr>a_V := mat_set (a_V st) i i 1\<rparr>;
          st = st\<lparr>v_g := a_rv1 st ! i\<rparr>
      in st\<lparr>v_l := i\<rparr>)"

definition accumulate_right :: "nat \<Rightarrow> svd_state \<Rightarrow> svd_state" where
  "accumulate_right n st = fold (right_step n) (rev [0..<n]) st"

subsection \<open>Accumulation of left-hand transformations\<close>

text \<open>\<^verbatim>\<open>for (j = l; j < n; j++) A[i][j] = 0.0;\<close>\<close>

definition lt_clear_row :: "nat \<Rightarrow> nat \<Rightarrow> svd_state \<Rightarrow> svd_state" where
  "lt_clear_row n i st = fold (\<lambda>j st. st\<lparr>a_A := mat_set (a_A st) i j 0\<rparr>) [v_l st..<n] st"

text \<open>\<^verbatim>\<open>for (j = l; j < n; j++) { s = 0.0; for (k = l; k < m; k++) s += A[k][i] * A[k][j];
  f = (s / A[i][i]) / g; for (k = i; k < m; k++) A[k][j] += f * A[k][i]; }\<close>\<close>

definition lt_apply :: "nat \<Rightarrow> nat \<Rightarrow> nat \<Rightarrow> svd_state \<Rightarrow> svd_state" where
  "lt_apply n m i st =
     fold (\<lambda>j st.
        let st = st\<lparr>v_s := 0\<rparr>;
            st = fold (\<lambda>k st. st\<lparr>v_s := v_s st + a_A st ! k ! i * a_A st ! k ! j\<rparr>) [v_l st..<m] st;
            st = st\<lparr>v_f := (v_s st / a_A st ! i ! i) / v_g st\<rparr>
        in fold (\<lambda>k st. st\<lparr>a_A := mat_set (a_A st) k j (a_A st ! k ! j + v_f st * a_A st ! k ! i)\<rparr>) [i..<m] st)
       [v_l st..<n] st"

text \<open>\<^verbatim>\<open>for (j = i; j < m; j++) A[j][i] /= g;\<close>\<close>

definition lt_divide :: "nat \<Rightarrow> nat \<Rightarrow> svd_state \<Rightarrow> svd_state" where
  "lt_divide m i st = fold (\<lambda>j st. st\<lparr>a_A := mat_set (a_A st) j i (a_A st ! j ! i / v_g st)\<rparr>) [i..<m] st"

text \<open>\<^verbatim>\<open>for (j = i; j < m; j++) A[j][i] = 0.0;\<close>\<close>

definition lt_clear_col :: "nat \<Rightarrow> nat \<Rightarrow> svd_state \<Rightarrow> svd_state" where
  "lt_clear_col m i st = fold (\<lambda>j st. st\<lparr>a_A := mat_set (a_A st) j i 0\<rparr>) [i..<m] st"

text \<open>The body of \<^verbatim>\<open>for (i = (m < n) ? m - 1 : n - 1; i >= 0; i--)\<close>.\<close>

definition left_step :: "nat \<Rightarrow> nat \<Rightarrow> nat \<Rightarrow> svd_state \<Rightarrow> svd_state" where
  "left_step n m i st =
     (let st = st\<lparr>v_l := i + 1\<rparr>;
          st = st\<lparr>v_g := a_w st ! i\<rparr>;
          st = (if i \<noteq> n - 1 then lt_clear_row n i st else st);
          st = (if v_g st \<noteq> 0 then lt_divide m i (lt_apply n m i st) else lt_clear_col m i st)
      in st\<lparr>a_A := mat_set (a_A st) i i (a_A st ! i ! i + 1)\<rparr>)"

definition accumulate_left :: "nat \<Rightarrow> nat \<Rightarrow> svd_state \<Rightarrow> svd_state" where
  "accumulate_left n m st = fold (left_step n m) (rev [0..<(if m < n then m else n)]) st"

subsection \<open>Diagonalization of the bidiagonal form\<close>

text \<open>The test for splitting, \<^verbatim>\<open>for (l = k; l >= 0; l--) { ... }\<close>, as a recursion on \<open>l\<close>.
  When the first test fails at \<open>l = 0\<close>, the code goes on to read \<^verbatim>\<open>w[-1]\<close>: that read is
  the error \<open>OutOfBounds\<close>.\<close>

fun split_search :: "nat \<Rightarrow> svd_state \<Rightarrow> error + svd_state" where
  "split_search 0 st =
     (let st = st\<lparr>v_l := 0\<rparr>;
          tst2 = \<bar>a_rv1 st ! 0\<bar> + v_tst1 st
      in if tst2 = v_tst1 st then Inr (st\<lparr>v_docancel := False\<rparr>)
         else Inl OutOfBounds)"
| "split_search (Suc l') st =
     (let st = st\<lparr>v_l := Suc l'\<rparr>;
          tst2 = \<bar>a_rv1 st ! Suc l'\<bar> + v_tst1 st
      in if tst2 = v_tst1 st then Inr (st\<lparr>v_docancel := False\<rparr>)
         else let st = st\<lparr>v_l1 := int (Suc l') - 1\<rparr>;
                  tst2 = \<bar>a_w st ! l'\<bar> + v_tst1 st
              in if tst2 = v_tst1 st then Inr st
                 else split_search l' st)"

text \<open>The rotation of two columns of \<^verbatim>\<open>A\<close> in the cancellation loop; \<^verbatim>\<open>y\<close> and \<^verbatim>\<open>z\<close> are
  locals of the loop body there.\<close>

definition cancel_rotate :: "nat \<Rightarrow> nat \<Rightarrow> svd_state \<Rightarrow> svd_state" where
  "cancel_rotate m i st =
     fold (\<lambda>j st.
        let y = a_A st ! j ! nat (v_l1 st);
            z = a_A st ! j ! i;
            st = st\<lparr>a_A := mat_set (a_A st) j (nat (v_l1 st)) (y * v_c st + z * v_s st)\<rparr>
        in st\<lparr>a_A := mat_set (a_A st) j i (z * v_c st - y * v_s st)\<rparr>) [0..<m] st"

text \<open>\<^verbatim>\<open>for (i = l; i <= k; i++) { ... if ((fabs(f) + tst1) == tst1) break; ... }\<close>, as a
  recursion on the indices still to visit.\<close>

fun cancel_loop :: "nat \<Rightarrow> nat list \<Rightarrow> svd_state \<Rightarrow> svd_state" where
  "cancel_loop m [] st = st"
| "cancel_loop m (i # is) st =
     (let st = st\<lparr>v_f := v_s st * a_rv1 st ! i\<rparr>;
          st = st\<lparr>a_rv1 := (a_rv1 st)[i := v_c st * a_rv1 st ! i]\<rparr>
      in if \<bar>v_f st\<bar> + v_tst1 st = v_tst1 st then st
         else let st = st\<lparr>v_g := a_w st ! i\<rparr>;
                  st = st\<lparr>v_h := hypot (v_f st) (v_g st)\<rparr>;
                  st = st\<lparr>a_w := (a_w st)[i := v_h st]\<rparr>;
                  st = st\<lparr>v_c := v_g st / v_h st\<rparr>;
                  st = st\<lparr>v_s := - v_f st / v_h st\<rparr>;
                  st = cancel_rotate m i st
              in cancel_loop m is st)"

definition cancellation :: "nat \<Rightarrow> nat \<Rightarrow> svd_state \<Rightarrow> svd_state" where
  "cancellation m k st = cancel_loop m [v_l st..<Suc k] (st\<lparr>v_c := 0, v_s := 1\<rparr>)"

text \<open>The two rotations inside the QR step. They use the variables \<^verbatim>\<open>x, z\<close> and \<^verbatim>\<open>y, z\<close> of
  the \<^verbatim>\<open>while\<close> body as temporaries.\<close>

definition qr_rotate_V :: "nat \<Rightarrow> nat \<Rightarrow> nat \<Rightarrow> svd_state \<Rightarrow> svd_state" where
  "qr_rotate_V n i1 i st =
     fold (\<lambda>j st.
        let st = st\<lparr>v_x := a_V st ! j ! i1\<rparr>;
            st = st\<lparr>v_z := a_V st ! j ! i\<rparr>;
            st = st\<lparr>a_V := mat_set (a_V st) j i1 (v_x st * v_c st + v_z st * v_s st)\<rparr>
        in st\<lparr>a_V := mat_set (a_V st) j i (v_z st * v_c st - v_x st * v_s st)\<rparr>) [0..<n] st"

definition qr_rotate_A :: "nat \<Rightarrow> nat \<Rightarrow> nat \<Rightarrow> svd_state \<Rightarrow> svd_state" where
  "qr_rotate_A m i1 i st =
     fold (\<lambda>j st.
        let st = st\<lparr>v_y := a_A st ! j ! i1\<rparr>;
            st = st\<lparr>v_z := a_A st ! j ! i\<rparr>;
            st = st\<lparr>a_A := mat_set (a_A st) j i1 (v_y st * v_c st + v_z st * v_s st)\<rparr>
        in st\<lparr>a_A := mat_set (a_A st) j i (v_z st * v_c st - v_y st * v_s st)\<rparr>) [0..<m] st"

text \<open>The body of \<^verbatim>\<open>for (i1 = l; i1 < k; i1++)\<close>, with \<^verbatim>\<open>i = i1 + 1\<close>.\<close>

definition qr_body :: "nat \<Rightarrow> nat \<Rightarrow> nat \<Rightarrow> svd_state \<Rightarrow> svd_state" where
  "qr_body n m i1 st =
     (let i = i1 + 1;
          st = st\<lparr>v_g := a_rv1 st ! i\<rparr>;
          st = st\<lparr>v_y := a_w st ! i\<rparr>;
          st = st\<lparr>v_h := v_s st * v_g st\<rparr>;
          st = st\<lparr>v_g := v_c st * v_g st\<rparr>;
          st = st\<lparr>v_z := hypot (v_f st) (v_h st)\<rparr>;
          st = st\<lparr>a_rv1 := (a_rv1 st)[i1 := v_z st]\<rparr>;
          st = st\<lparr>v_c := v_f st / v_z st\<rparr>;
          st = st\<lparr>v_s := v_h st / v_z st\<rparr>;
          st = st\<lparr>v_f := v_x st * v_c st + v_g st * v_s st\<rparr>;
          st = st\<lparr>v_g := v_g st * v_c st - v_x st * v_s st\<rparr>;
          st = st\<lparr>v_h := v_y st * v_s st\<rparr>;
          st = st\<lparr>v_y := v_y st * v_c st\<rparr>;
          st = qr_rotate_V n i1 i st;
          st = st\<lparr>v_z := hypot (v_f st) (v_h st)\<rparr>;
          st = st\<lparr>a_w := (a_w st)[i1 := v_z st]\<rparr>;
          st = (if v_z st \<noteq> 0
                then (let st = st\<lparr>v_c := v_f st / v_z st\<rparr> in st\<lparr>v_s := v_h st / v_z st\<rparr>)
                else st);
          st = st\<lparr>v_f := v_c st * v_g st + v_s st * v_y st\<rparr>;
          st = st\<lparr>v_x := v_c st * v_y st - v_s st * v_g st\<rparr>
      in qr_rotate_A m i1 i st)"

text \<open>The first half of the branch \<^verbatim>\<open>if (l != k) { ... }\<close>: the shift from the bottom
  2 by 2 minor. \<^verbatim>\<open>k1\<close> is \<^verbatim>\<open>k - 1\<close>; the branch is entered with \<open>l < k\<close>.\<close>

definition qr_shift :: "nat \<Rightarrow> svd_state \<Rightarrow> svd_state" where
  "qr_shift k st =
     (let k1 = k - 1;
          st = st\<lparr>v_x := a_w st ! v_l st\<rparr>;
          st = st\<lparr>v_y := a_w st ! k1\<rparr>;
          st = st\<lparr>v_g := a_rv1 st ! k1\<rparr>;
          st = st\<lparr>v_h := a_rv1 st ! k\<rparr>;
          st = st\<lparr>v_f := (1 / 2) * (((v_g st + v_z st) / v_h st) * ((v_g st - v_z st) / v_y st)
                                    + v_y st / v_h st - v_h st / v_y st)\<rparr>;
          st = st\<lparr>v_g := hypot (v_f st) 1\<rparr>
      in st\<lparr>v_f := v_x st - (v_z st / v_x st) * v_z st
                      + (v_h st / v_x st) * (v_y st / (v_f st + copysign (v_g st) (v_f st)) - v_h st)\<rparr>)"

text \<open>The whole branch \<^verbatim>\<open>if (l != k) { ... }\<close>: the shift, then the next QR transformation.\<close>

definition qr_step :: "nat \<Rightarrow> nat \<Rightarrow> nat \<Rightarrow> svd_state \<Rightarrow> svd_state" where
  "qr_step n m k st =
     (let st = qr_shift k st;
          st = st\<lparr>v_c := 1, v_s := 1\<rparr>;
          st = fold (qr_body n m) [v_l st..<k] st;
          st = st\<lparr>a_rv1 := (a_rv1 st)[v_l st := 0]\<rparr>;
          st = st\<lparr>a_rv1 := (a_rv1 st)[k := v_f st]\<rparr>
      in st\<lparr>a_w := (a_w st)[k := v_x st]\<rparr>)"

text \<open>The branch \<^verbatim>\<open>else { ... break; }\<close>: \<^verbatim>\<open>w[k]\<close> is made non-negative.\<close>

definition make_nonneg :: "nat \<Rightarrow> nat \<Rightarrow> svd_state \<Rightarrow> svd_state" where
  "make_nonneg n k st =
     (if v_z st < 0 then
        (let st = st\<lparr>a_w := (a_w st)[k := - v_z st]\<rparr>
         in fold (\<lambda>j st. st\<lparr>a_V := mat_set (a_V st) j k (- a_V st ! j ! k)\<rparr>) [0..<n] st)
      else st)"

text \<open>One pass through the body of \<^verbatim>\<open>while (1)\<close>, after the iteration count has been
  checked. The Boolean tells whether the pass left the loop through \<^verbatim>\<open>break\<close>.\<close>

definition svd_attempt :: "nat \<Rightarrow> nat \<Rightarrow> nat \<Rightarrow> svd_state \<Rightarrow> error + (bool \<times> svd_state)" where
  "svd_attempt n m k st =
     (let st = st\<lparr>v_docancel := True, v_l1 := - 1\<rparr>
      in case split_search k st of
           Inl e \<Rightarrow> Inl e
         | Inr st \<Rightarrow>
             (let st = (if v_docancel st then cancellation m k st else st);
                  st = st\<lparr>v_z := a_w st ! k\<rparr>
              in if v_l st \<noteq> k then Inr (False, qr_step n m k st)
                 else Inr (True, make_nonneg n k st)))"

text \<open>\<^verbatim>\<open>while (1) { its++; if (its > SVD_NMAX) quit(...); ... }\<close>; \<open>its\<close> is the count on
  entry to the loop body.\<close>

function svd_sweep :: "nat \<Rightarrow> nat \<Rightarrow> nat \<Rightarrow> nat \<Rightarrow> svd_state \<Rightarrow> error + svd_state" where
  "svd_sweep n m k its st =
     (if its + 1 > SVD_NMAX then Inl NoConvergence
      else case svd_attempt n m k st of
             Inl e \<Rightarrow> Inl e
           | Inr (True, st') \<Rightarrow> Inr st'
           | Inr (False, st') \<Rightarrow> svd_sweep n m k (its + 1) st')"
  by pat_completeness auto
termination
  by (relation "measure (\<lambda>(n, m, k, its, st). SVD_NMAX - its)") auto

text \<open>\<^verbatim>\<open>for (k = n - 1; k >= 0; k--) { int its = 0; while (1) ... }\<close>, as a recursion on the
  indices still to diagonalize.\<close>

fun diag_loop :: "nat \<Rightarrow> nat \<Rightarrow> nat list \<Rightarrow> svd_state \<Rightarrow> error + svd_state" where
  "diag_loop n m [] st = Inr st"
| "diag_loop n m (k # ks) st =
     (case svd_sweep n m k 0 st of
        Inl e \<Rightarrow> Inl e
      | Inr st' \<Rightarrow> diag_loop n m ks st')"

definition diagonalize :: "nat \<Rightarrow> nat \<Rightarrow> svd_state \<Rightarrow> error + svd_state" where
  "diagonalize n m st = diag_loop n m (rev [0..<n]) st"

subsection \<open>The whole decomposition\<close>

text \<open>
  \<^verbatim>\<open>void svd(double** A, int n, int m, double* w, double** V)\<close>. The last argument is what
  \<^verbatim>\<open>malloc\<close> hands out for \<^verbatim>\<open>rv1\<close>, which the code does not initialise. The locals start
  at 0 (in C they are indeterminate, \<^verbatim>\<open>l\<close> is \<open>-1\<close>); each is written before it is read.
\<close>

definition svd_init :: "matrix \<Rightarrow> vector \<Rightarrow> matrix \<Rightarrow> vector \<Rightarrow> svd_state" where
  "svd_init A w V rv =
     \<lparr>a_A = A, a_V = V, a_w = w, a_rv1 = rv, v_l = 0, v_tst1 = 0, v_c = 0, v_f = 0, v_g = 0,
      v_h = 0, v_s = 0, v_scale = 0, v_x = 0, v_y = 0, v_z = 0, v_l1 = - 1, v_docancel = True\<rparr>"

definition svd :: "matrix \<Rightarrow> int \<Rightarrow> int \<Rightarrow> vector \<Rightarrow> matrix \<Rightarrow> vector \<Rightarrow> error + svd_state" where
  "svd A n m w V rv =
     (if \<not> (m > 0 \<and> n > 0) then Inl AssertionFailed
      else let st = svd_init A w V rv;
               st = householder (nat n) (nat m) st;
               st = accumulate_right (nat n) st;
               st = accumulate_left (nat n) (nat m) st
           in diagonalize (nat n) (nat m) st)"

subsection \<open>What the loops leave alone\<close>

text \<open>The part of the state that the loops over \<^verbatim>\<open>A\<close> and \<^verbatim>\<open>V\<close> never write: the vectors
  \<^verbatim>\<open>w\<close> and \<^verbatim>\<open>rv1\<close>, the threshold \<^verbatim>\<open>tst1\<close> and the index \<^verbatim>\<open>l\<close>.\<close>

definition obs_wr :: "svd_state \<Rightarrow> vector \<times> vector \<times> real \<times> nat" where
  "obs_wr st = (a_w st, a_rv1 st, v_tst1 st, v_l st)"

text \<open>\<open>agree_off S st0 st\<close>: from \<open>st0\<close> to \<open>st\<close>, \<^verbatim>\<open>tst1\<close> and \<^verbatim>\<open>l\<close> have kept their values,
  \<^verbatim>\<open>w\<close> and \<^verbatim>\<open>rv1\<close> their lengths, and \<^verbatim>\<open>w\<close> and \<^verbatim>\<open>rv1\<close> have changed at most at the
  indices in \<open>S\<close>.\<close>

definition agree_off :: "nat set \<Rightarrow> svd_state \<Rightarrow> svd_state \<Rightarrow> bool" where
  "agree_off S st0 st \<longleftrightarrow>
     v_tst1 st = v_tst1 st0 \<and> v_l st = v_l st0
     \<and> length (a_rv1 st) = length (a_rv1 st0) \<and> length (a_w st) = length (a_w st0)
     \<and> (\<forall>j. j \<notin> S \<longrightarrow> a_rv1 st ! j = a_rv1 st0 ! j \<and> a_w st ! j = a_w st0 ! j)"


subsection \<open>The iteration cap, stated without the loop\<close>

text \<open>The first \<open>j\<close> passes through the body of \<^verbatim>\<open>while (1)\<close> for the target index \<open>k\<close>, with
  no limit on their number: \<open>Inr (True, s)\<close> if one of them left the loop by \<^verbatim>\<open>break\<close> (in
  state \<open>s\<close>), \<open>Inr (False, s)\<close> if none did and \<open>s\<close> is the state after the last one.\<close>

fun attempts :: "nat \<Rightarrow> nat \<Rightarrow> nat \<Rightarrow> nat \<Rightarrow> svd_state \<Rightarrow> error + (bool \<times> svd_state)" where
  "attempts n m k 0 st = Inr (False, st)"
| "attempts n m k (Suc j) st =
     (case svd_attempt n m k st of
        Inl e \<Rightarrow> Inl e
      | Inr (True, st') \<Rightarrow> Inr (True, st')
      | Inr (False, st') \<Rightarrow> attempts n m k j st')"

text \<open>The target indices whose \<^verbatim>\<open>while\<close> loop is entered, each with the state on entry.\<close>

fun diag_entries :: "nat \<Rightarrow> nat \<Rightarrow> nat list \<Rightarrow> svd_state \<Rightarrow> (nat \<times> svd_state) list" where
  "diag_entries n m [] st = []"
| "diag_entries n m (k # ks) st =
     (k, st) # (case svd_sweep n m k 0 st of
                  Inl e \<Rightarrow> []
                | Inr st' \<Rightarrow> diag_entries n m ks st')"

section \<open>Properties of svd_sort\<close>

subsection \<open>The two sort models meet the contract of \<open>qsort\<close>\<close>

lemma cmp_iv_le0: "cmp_iv a b \<le> 0 \<longleftrightarrow> iv_v b \<le> iv_v a"
  by (simp add: cmp_iv_def Let_def)

lemma cmp_iv_less0: "cmp_iv a b < 0 \<longleftrightarrow> iv_v b < iv_v a"
  by (simp add: cmp_iv_def Let_def)

lemma mset_insert_front: "mset (insert_front cmp x ys) = add_mset x (mset ys)"
  by (induction ys) auto

lemma mset_insert_behind: "mset (insert_behind cmp x ys) = add_mset x (mset ys)"
  by (induction ys) auto

lemma set_insert_front: "set (insert_front cmp x ys) = insert x (set ys)"
  using mset_insert_front [of cmp x ys] by (metis set_mset_add_mset_insert set_mset_mset)

lemma set_insert_behind: "set (insert_behind cmp x ys) = insert x (set ys)"
  using mset_insert_behind [of cmp x ys] by (metis set_mset_add_mset_insert set_mset_mset)

lemma sorted_insert_front:
  "sorted_wrt (\<lambda>a b. cmp_iv a b \<le> 0) ys \<Longrightarrow> sorted_wrt (\<lambda>a b. cmp_iv a b \<le> 0) (insert_front cmp_iv x ys)"
  by (induction ys) (auto simp: set_insert_front cmp_iv_le0)

lemma sorted_insert_behind:
  "sorted_wrt (\<lambda>a b. cmp_iv a b \<le> 0) ys \<Longrightarrow> sorted_wrt (\<lambda>a b. cmp_iv a b \<le> 0) (insert_behind cmp_iv x ys)"
  by (induction ys) (auto simp: set_insert_behind cmp_iv_le0 cmp_iv_less0)

lemma qsort_stable_conforms: "qsort_conforms qsort_stable"
proof -
  have "mset (foldr (insert_front cmp_iv) xs []) = mset xs
      \<and> sorted_wrt (\<lambda>a b. cmp_iv a b \<le> 0) (foldr (insert_front cmp_iv) xs [])" for xs
    by (induction xs) (simp_all add: mset_insert_front sorted_insert_front)
  then show ?thesis
    by (simp add: qsort_conforms_def qsort_stable_def)
qed

lemma qsort_reversing_conforms: "qsort_conforms qsort_reversing"
proof -
  have "mset (foldr (insert_behind cmp_iv) xs []) = mset xs
      \<and> sorted_wrt (\<lambda>a b. cmp_iv a b \<le> 0) (foldr (insert_behind cmp_iv) xs [])" for xs
    by (induction xs) (simp_all add: mset_insert_behind sorted_insert_behind)
  then show ?thesis
    by (simp add: qsort_conforms_def qsort_reversing_def)
qed

subsection \<open>The loop of \<open>svd_sort\<close>\<close>

text \<open>The loop that copies one column into a matrix, row by row.\<close>

lemma col_write_fold:
  "k \<le> length M \<Longrightarrow>
   fold (\<lambda>j A. mat_set A j i (f j)) [0..<k] M
     = map (\<lambda>j. if j < k then (M ! j)[i := f j] else M ! j) [0..<length M]"
proof (induction k)
  case 0
  then show ?case by (simp add: map_nth)
next
  case (Suc k)
  then have k: "k < length M" by simp
  have "fold (\<lambda>j A. mat_set A j i (f j)) [0..<Suc k] M
      = mat_set (fold (\<lambda>j A. mat_set A j i (f j)) [0..<k] M) k i (f k)"
    by simp
  also have "\<dots> = mat_set (map (\<lambda>j. if j < k then (M ! j)[i := f j] else M ! j) [0..<length M]) k i (f k)"
    using Suc by simp
  also have "\<dots> = map (\<lambda>j. if j < Suc k then (M ! j)[i := f j] else M ! j) [0..<length M]"
    using k by (auto simp: mat_set_def intro!: nth_equalityI simp: nth_list_update)
  finally show ?case .
qed

lemma col_write_all:
  "fold (\<lambda>j A. mat_set A j i (f j)) [0..<length M] M = map (\<lambda>j. (M ! j)[i := f j]) [0..<length M]"
  by (simp add: col_write_fold)

lemma is_matrix_nth: "is_matrix r c M \<Longrightarrow> j < r \<Longrightarrow> length (M ! j) = c"
  by (simp add: is_matrix_def)

lemma is_matrix_eq: "is_matrix r c M \<Longrightarrow> M = map (\<lambda>j. map (\<lambda>i. M ! j ! i) [0..<c]) [0..<r]"
  by (auto simp: is_matrix_def intro!: nth_equalityI)

lemma sorted_upto_0:
  assumes "triad_ok n m t"
  shows "sorted_upto n m wold aold vold pos wmax 0 t = t"
proof -
  have a: "map (\<lambda>j. map (\<lambda>c. mat_A t ! j ! c) [0..<n]) [0..<m] = mat_A t"
    using assms is_matrix_eq [of m n "mat_A t"] by (simp add: triad_ok_def)
  have v: "map (\<lambda>j. map (\<lambda>c. mat_V t ! j ! c) [0..<n]) [0..<n] = mat_V t"
    using assms is_matrix_eq [of n n "mat_V t"] by (simp add: triad_ok_def)
  have w: "map (\<lambda>c. vec_w t ! c) [0..<n] = vec_w t"
    using assms map_nth [of "vec_w t"] by (auto simp: triad_ok_def)
  show ?thesis
    unfolding sorted_upto_def by (simp add: a v w)
qed

lemma sort_body_step:
  assumes "k < n"
  shows "sort_body n m wold aold vold pos wmax k (sorted_upto n m wold aold vold pos wmax k t)
       = sorted_upto n m wold aold vold pos wmax (Suc k) t"
proof -
  let ?s = "sorted_upto n m wold aold vold pos wmax k t"
  have lenA: "length (mat_A ?s) = m" and lenV: "length (mat_V ?s) = n"
    by (simp_all add: sorted_upto_def)
  have A: "fold (\<lambda>j A. mat_set A j k (aold ! j ! (pos ! k))) [0..<m] (mat_A ?s)
         = mat_A (sorted_upto n m wold aold vold pos wmax (Suc k) t)"
    using col_write_all [of k "\<lambda>j. aold ! j ! (pos ! k)" "mat_A ?s"] assms
    unfolding lenA
    by (auto simp: sorted_upto_def intro!: nth_equalityI simp: nth_list_update less_Suc_eq)
  have V: "fold (\<lambda>j A. mat_set A j k (vold ! j ! (pos ! k))) [0..<n] (mat_V ?s)
         = mat_V (sorted_upto n m wold aold vold pos wmax (Suc k) t)"
    using col_write_all [of k "\<lambda>j. vold ! j ! (pos ! k)" "mat_V ?s"] assms
    unfolding lenV
    by (auto simp: sorted_upto_def intro!: nth_equalityI simp: nth_list_update less_Suc_eq)
  have W: "(let w1 = (vec_w ?s)[k := wold ! (pos ! k)]
            in if quot_below (w1 ! k) wmax SVD_EPS then w1[k := 0] else w1)
         = vec_w (sorted_upto n m wold aold vold pos wmax (Suc k) t)"
    using assms
    by (auto simp: sorted_upto_def Let_def intro!: nth_equalityI simp: nth_list_update less_Suc_eq)
  show ?thesis
    unfolding sort_body_def using A V W by (simp add: Let_def)
qed

lemma sort_loop_upto:
  "triad_ok n m t \<Longrightarrow> k \<le> n \<Longrightarrow>
   fold (sort_body n m wold aold vold pos wmax) [0..<k] t = sorted_upto n m wold aold vold pos wmax k t"
proof (induction k)
  case 0
  then show ?case by (simp add: sorted_upto_0)
next
  case (Suc k)
  then show ?case by (simp add: sort_body_step)
qed

subsection \<open>The order \<open>sortvector\<close> returns\<close>

lemma sortvector_mset:
  assumes "qsort_conforms qs" "0 < n"
  shows "mset (sortvector qs n v pos) = mset [0..<nat n]"
proof -
  let ?iv = "map (\<lambda>i. \<lparr>iv_v = v ! i, iv_i = i\<rparr>) [0..<nat n]"
  have "mset (map iv_i (qs cmp_iv ?iv)) = image_mset iv_i (mset (qs cmp_iv ?iv))"
    by simp
  also have "\<dots> = image_mset iv_i (mset ?iv)"
    using assms(1) by (simp add: qsort_conforms_def)
  also have "\<dots> = mset (map iv_i ?iv)"
    by (simp only: mset_map)
  also have "map iv_i ?iv = [0..<nat n]"
    by (simp add: comp_def)
  finally show ?thesis
    using assms(2) by (simp add: sortvector_def Let_def)
qed

lemma sortvector_length:
  "qsort_conforms qs \<Longrightarrow> 0 < n \<Longrightarrow> length (sortvector qs n v pos) = nat n"
  using sortvector_mset [of qs n v pos] by (metis length_upt minus_nat.diff_0 size_mset)

lemma sortvector_set:
  "qsort_conforms qs \<Longrightarrow> 0 < n \<Longrightarrow> set (sortvector qs n v pos) = {0..<nat n}"
  using sortvector_mset [of qs n v pos] by (metis set_mset_mset set_upt)

lemma sortvector_nth_less:
  "qsort_conforms qs \<Longrightarrow> 0 < n \<Longrightarrow> i < nat n \<Longrightarrow> sortvector qs n v pos ! i < nat n"
  using sortvector_set [of qs n v pos] sortvector_length [of qs n v pos]
  by (metis atLeastLessThan_iff nth_mem)

lemma sortvector_descending:
  assumes "qsort_conforms qs" "0 < n"
  shows "sorted_wrt (\<lambda>x y. y \<le> x) (map (\<lambda>i. v ! i) (sortvector qs n v pos))"
proof -
  let ?iv = "map (\<lambda>i. \<lparr>iv_v = v ! i, iv_i = i\<rparr>) [0..<nat n]"
  let ?iv' = "qs cmp_iv ?iv"
  have "mset ?iv' = mset ?iv"
    using assms(1) by (simp add: qsort_conforms_def)
  then have "set ?iv' = set ?iv"
    by (rule mset_eq_setD)
  then have val: "\<forall>e \<in> set ?iv'. v ! iv_i e = iv_v e"
    by auto
  have "sorted_wrt (\<lambda>a b. iv_v b \<le> iv_v a) ?iv'"
    using assms(1) by (simp add: qsort_conforms_def cmp_iv_le0)
  then have "sorted_wrt (\<lambda>x y. y \<le> x) (map iv_v ?iv')"
    by (simp add: sorted_wrt_map)
  moreover have "map iv_v ?iv' = map (\<lambda>i. v ! i) (map iv_i ?iv')"
    using val by simp
  ultimately show ?thesis
    using assms(2) by (simp add: sortvector_def Let_def)
qed

subsection \<open>Thresholding\<close>

text \<open>Zeroing the entries whose quotient by the first (largest) one is below the floor
  keeps a descending vector descending.\<close>

lemma threshold_mono:
  assumes "y \<le> x" "x \<le> wmax"
  shows "(if quot_below y wmax SVD_EPS then 0 else y) \<le> (if quot_below x wmax SVD_EPS then 0 else x)"
proof -
  have eps: "0 < SVD_EPS" "SVD_EPS < 1" by (simp_all add: SVD_EPS_def)
  consider "wmax = 0" | "0 < wmax" | "wmax < 0" by linarith
  then show ?thesis
  proof cases
    case 1
    then show ?thesis using assms by (auto simp: quot_below_def)
  next
    case 2
    then have q: "\<And>z. quot_below z wmax SVD_EPS \<longleftrightarrow> z < SVD_EPS * wmax"
      by (simp add: quot_below_def pos_divide_less_eq)
    have "0 < SVD_EPS * wmax" using 2 eps by simp
    then show ?thesis using assms by (auto simp: q)
  next
    case 3
    have nz: "\<not> quot_below z wmax SVD_EPS" if "z \<le> wmax" for z
    proof -
      have "1 \<le> z / wmax" using 3 that by (simp add: neg_le_divide_eq)
      then have "\<not> z / wmax < SVD_EPS" using eps by linarith
      then show ?thesis using 3 by (simp add: quot_below_def)
    qed
    show ?thesis using assms nz by simp
  qed
qed

lemma threshold_descending:
  assumes "sorted_wrt (\<lambda>x y. y \<le> x) xs" "\<forall>x \<in> set xs. x \<le> wmax"
  shows "sorted_wrt (\<lambda>x y. y \<le> x) (map (\<lambda>x. if quot_below x wmax SVD_EPS then 0 else x) xs)"
proof -
  let ?thr = "\<lambda>x. if quot_below x wmax SVD_EPS then 0 else x"
  have "sorted_wrt (\<lambda>x y. ?thr y \<le> ?thr x) xs"
  proof (rule sorted_wrt_mono_rel [OF _ assms(1)])
    fix x y
    assume "x \<in> set xs" "y \<in> set xs" "y \<le> x"
    then show "?thr y \<le> ?thr x"
      using assms(2) threshold_mono [of y x wmax] by blast
  qed
  then show ?thesis
    by (simp add: sorted_wrt_map)
qed

subsection \<open>The triad \<open>svd_sort\<close> returns\<close>

lemma svd_sort_result:
  assumes "qsort_conforms qs" "1 \<le> n" "1 \<le> m" "triad_ok (nat n) (nat m) t"
  shows "svd_sort qs n m t =
     Inr (sorted_upto (nat n) (nat m) (vec_w t) (mat_A t) (mat_V t)
            (sortvector qs n (vec_w t) []) (vec_w t ! (sortvector qs n (vec_w t) [] ! 0)) (nat n) t)"
  using assms sort_loop_upto [of "nat n" "nat m" t "nat n"]
  by (simp add: svd_sort_def Let_def)

lemma sorted_upto_nth:
  assumes "i < n"
  shows "vec_w (sorted_upto n m wold aold vold pos wmax n t) ! i
           = (if quot_below (wold ! (pos ! i)) wmax SVD_EPS then 0 else wold ! (pos ! i))"
    and "j < m \<Longrightarrow> mat_A (sorted_upto n m wold aold vold pos wmax n t) ! j ! i = aold ! j ! (pos ! i)"
    and "j' < n \<Longrightarrow> mat_V (sorted_upto n m wold aold vold pos wmax n t) ! j' ! i = vold ! j' ! (pos ! i)"
  using assms by (simp_all add: sorted_upto_def)

lemma sorted_upto_ok: "triad_ok n m (sorted_upto n m wold aold vold pos wmax k t)"
  by (auto simp: sorted_upto_def triad_ok_def is_matrix_def)

lemma sorted_upto_w:
  "vec_w (sorted_upto n m wold aold vold pos wmax n t)
     = map (\<lambda>x. if quot_below x wmax SVD_EPS then 0 else x) (map (\<lambda>i. wold ! i) (map (\<lambda>c. pos ! c) [0..<n]))"
  by (simp add: sorted_upto_def comp_def)

lemma descending_le_first:
  "sorted_wrt (\<lambda>x y. y \<le> x) xs \<Longrightarrow> x \<in> set xs \<Longrightarrow> (x::real) \<le> xs ! 0"
  by (cases xs) auto

lemma sorted_result_descending:
  assumes "qsort_conforms qs" and "0 < n" and "p = sortvector qs n w []"
  shows "sorted_wrt (\<lambda>x y. y \<le> x) (vec_w (sorted_upto (nat n) M w A V p (w ! (p ! 0)) (nat n) t))"
proof -
  let ?N = "nat n"
  have len: "length p = ?N"
    using sortvector_length [OF assms(1,2)] assms(3) by simp
  have desc: "sorted_wrt (\<lambda>x y. y \<le> x) (map (\<lambda>i. w ! i) p)"
    using sortvector_descending [OF assms(1,2)] assms(3) by simp
  have p_eq: "map (\<lambda>c. p ! c) [0..<?N] = p"
    using len map_nth [of p] by simp
  have first: "map (\<lambda>i. w ! i) p ! 0 = w ! (p ! 0)"
    using len assms(2) by simp
  have bound: "\<forall>x \<in> set (map (\<lambda>i. w ! i) p). x \<le> w ! (p ! 0)"
    using descending_le_first [OF desc] first by auto
  show ?thesis
    unfolding sorted_upto_w p_eq by (rule threshold_descending [OF desc bound])
qed

text \<open>
  Claim C1. For \<open>n \<ge> 1\<close>, \<open>m \<ge> 1\<close> and a triad of the right shapes, \<open>svd_sort\<close>
  returns normally and applies the one permutation \<open>p\<close> computed by \<open>sortvector\<close> to all
  three facets: \<open>p\<close> is a permutation of \<open>0..n-1\<close> that puts the old \<open>w\<close> in descending
  order, entry \<open>i\<close> of the new \<open>w\<close> is the old \<open>w[p[i]]\<close> (or 0 where the threshold
  applies), column \<open>i\<close> of the new \<open>A\<close> and \<open>V\<close> is the old column \<open>p[i]\<close>, and the
  returned \<open>w\<close> is descending.
\<close>

theorem svd_sort_permutes_triad:
  assumes "qsort_conforms qs" and "1 \<le> n" and "1 \<le> m"
    and "triad_ok (nat n) (nat m) t"
    and "p = sortvector qs n (vec_w t) []"
  shows "\<exists>t'. svd_sort qs n m t = Inr t'
      \<and> mset p = mset [0..<nat n]
      \<and> sorted_wrt (\<lambda>x y. y \<le> x) (map (\<lambda>i. vec_w t ! i) p)
      \<and> (\<forall>i < nat n. vec_w t' ! i =
            (if quot_below (vec_w t ! (p ! i)) (vec_w t ! (p ! 0)) SVD_EPS then 0 else vec_w t ! (p ! i)))
      \<and> (\<forall>i < nat n. \<forall>j < nat m. mat_A t' ! j ! i = mat_A t ! j ! (p ! i))
      \<and> (\<forall>i < nat n. \<forall>j < nat n. mat_V t' ! j ! i = mat_V t ! j ! (p ! i))
      \<and> triad_ok (nat n) (nat m) t'
      \<and> sorted_wrt (\<lambda>x y. y \<le> x) (vec_w t')"
proof -
  let ?N = "nat n" and ?w = "vec_w t"
  let ?t' = "sorted_upto ?N (nat m) ?w (mat_A t) (mat_V t) p (?w ! (p ! 0)) ?N t"
  have n0: "0 < n" using assms(2) by simp
  have res: "svd_sort qs n m t = Inr ?t'"
    using svd_sort_result [OF assms(1-4)] assms(5) by simp
  have perm: "mset p = mset [0..<?N]"
    using sortvector_mset [OF assms(1) n0] assms(5) by simp
  have desc: "sorted_wrt (\<lambda>x y. y \<le> x) (map (\<lambda>i. ?w ! i) p)"
    using sortvector_descending [OF assms(1) n0] assms(5) by simp
  have "sorted_wrt (\<lambda>x y. y \<le> x) (vec_w ?t')"
    by (rule sorted_result_descending [OF assms(1) n0 assms(5)])
  then show ?thesis
    using res perm desc sorted_upto_ok [of ?N "nat m"]
    by (simp add: sorted_upto_nth)
qed

theorem svd_sort_permutes_triad_witness:
  "qsort_conforms qsort_stable \<and> triad_ok (nat 2) (nat 1) \<lparr>mat_A = [[1, 2]], vec_w = [1, 3], mat_V = [[1, 0], [0, 1]]\<rparr>
   \<and> (\<exists>t'. svd_sort qsort_stable 2 1 \<lparr>mat_A = [[1, 2]], vec_w = [1, 3], mat_V = [[1, 0], [0, 1]]\<rparr> = Inr t'
      \<and> mat_A t' ! 0 ! 0 = 2 \<and> mat_A t' ! 0 ! 1 = 1 \<and> vec_w t' ! 0 = 3 \<and> vec_w t' ! 1 = 1
      \<and> mat_V t' ! 0 ! 0 = 0 \<and> mat_V t' ! 1 ! 0 = 1 \<and> sorted_wrt (\<lambda>x y. y \<le> x) (vec_w t'))"
proof -
  let ?t = "\<lparr>mat_A = [[1, 2]], vec_w = [1, 3], mat_V = [[1, 0], [0, 1]]\<rparr>"
  have ok: "triad_ok (nat 2) (nat 1) ?t"
    by (simp add: triad_ok_def is_matrix_def)
  have p: "[1, 0] = sortvector qsort_stable 2 (vec_w ?t) []"
    by (simp add: sortvector_def qsort_stable_def cmp_iv_def upt_rec)
  show ?thesis
    using svd_sort_permutes_triad [OF qsort_stable_conforms _ _ ok p] ok qsort_stable_conforms
    by (auto simp: quot_below_def SVD_EPS_def)
qed

lemma threshold_of_max:
  "wmax \<noteq> 0 \<Longrightarrow> \<not> quot_below wmax wmax SVD_EPS"
  by (simp add: quot_below_def SVD_EPS_def)

lemma threshold_zero_max:
  "\<not> quot_below (if quot_below x 0 SVD_EPS then 0 else x) 0 SVD_EPS"
  by (simp add: quot_below_def)

text \<open>
  Claim C3. After \<open>svd_sort\<close> has returned, \<open>w\<close> still has \<open>n\<close> entries, and every entry
  whose quotient by the largest singular value is below \<open>SVD_EPS\<close> is exactly 0: both for
  the quotient the code tests (old \<open>w[p[i]]\<close> by old \<open>w[p[0]]\<close>) and for the quotient
  \<open>w[i] / w[0]\<close> read off the returned vector.
\<close>

theorem svd_sort_thresholds:
  assumes "qsort_conforms qs" and "1 \<le> n" and "1 \<le> m"
    and "triad_ok (nat n) (nat m) t"
    and "p = sortvector qs n (vec_w t) []"
    and "svd_sort qs n m t = Inr t'"
  shows "length (vec_w t') = nat n
      \<and> (\<forall>i < nat n. quot_below (vec_w t ! (p ! i)) (vec_w t ! (p ! 0)) SVD_EPS \<longrightarrow> vec_w t' ! i = 0)
      \<and> (\<forall>i < nat n. quot_below (vec_w t' ! i) (vec_w t' ! 0) SVD_EPS \<longrightarrow> vec_w t' ! i = 0)"
proof -
  let ?N = "nat n" and ?w = "vec_w t"
  let ?wmax = "?w ! (p ! 0)"
  let ?thr = "\<lambda>x. if quot_below x ?wmax SVD_EPS then 0 else x"
  have n0: "0 < ?N" using assms(2) by simp
  have t': "t' = sorted_upto ?N (nat m) ?w (mat_A t) (mat_V t) p ?wmax ?N t"
    using svd_sort_result [OF assms(1-4)] assms(5,6) by simp
  have nth: "vec_w t' ! i = ?thr (?w ! (p ! i))" if "i < ?N" for i
    using that unfolding t' by (simp add: sorted_upto_nth)
  have len: "length (vec_w t') = ?N"
    unfolding t' by (simp add: sorted_upto_def)
  have pre: "vec_w t' ! i = 0" if "i < ?N" "quot_below (?w ! (p ! i)) ?wmax SVD_EPS" for i
    using that nth by simp
  have post: "vec_w t' ! i = 0" if i: "i < ?N" and q: "quot_below (vec_w t' ! i) (vec_w t' ! 0) SVD_EPS" for i
  proof (cases "?wmax = 0")
    case True
    have "\<not> quot_below (?thr (?w ! (p ! i))) 0 SVD_EPS"
      unfolding True by (rule threshold_zero_max)
    moreover have "vec_w t' ! 0 = 0"
      using nth [OF n0] True by (simp add: quot_below_def)
    ultimately show ?thesis
      using q nth [OF i] by simp
  next
    case False
    then have "vec_w t' ! 0 = ?wmax"
      using nth [OF n0] threshold_of_max by simp
    then show ?thesis
      using q nth [OF i] by (auto split: if_splits)
  qed
  show ?thesis
    using len pre post by blast
qed

theorem svd_sort_thresholds_witness:
  "qsort_conforms qsort_stable
   \<and> triad_ok (nat 2) (nat 1) \<lparr>mat_A = [[1, 2]], vec_w = [1 / 1000000000000000, 3], mat_V = [[1, 0], [0, 1]]\<rparr>
   \<and> quot_below (1 / 1000000000000000) 3 SVD_EPS
   \<and> svd_sort qsort_stable 2 1 \<lparr>mat_A = [[1, 2]], vec_w = [1 / 1000000000000000, 3], mat_V = [[1, 0], [0, 1]]\<rparr>
        = Inr \<lparr>mat_A = [[2, 1]], vec_w = [3, 0], mat_V = [[0, 1], [1, 0]]\<rparr>"
proof -
  let ?t = "\<lparr>mat_A = [[1, 2]], vec_w = [1 / 1000000000000000, 3], mat_V = [[1, 0], [0, 1]]\<rparr>"
  let ?t' = "\<lparr>mat_A = [[2, 1]], vec_w = [3, 0], mat_V = [[0, 1], [1, 0]]\<rparr>"
  have ok: "triad_ok (nat 2) (nat 1) ?t"
    by (simp add: triad_ok_def is_matrix_def)
  have sv: "sortvector qsort_stable 2 [1 / 1000000000000000, 3] [] = [1, 0]"
    by (simp add: sortvector_def qsort_stable_def cmp_iv_def upt_rec)
  have p: "[1, 0] = sortvector qsort_stable 2 (vec_w ?t) []"
    using sv by simp
  have q: "quot_below (1 / 1000000000000000) 3 SVD_EPS"
    by (simp add: quot_below_def SVD_EPS_def)
  have run: "svd_sort qsort_stable 2 1 ?t = Inr ?t'"
    using q by (simp add: svd_sort_def sv sort_body_def mat_set_def upt_rec Let_def quot_below_def SVD_EPS_def)
  show ?thesis
    using svd_sort_thresholds [OF qsort_stable_conforms _ _ ok p run] ok qsort_stable_conforms q run
    by simp
qed

subsection \<open>Ties\<close>

lemma sortvector_position:
  assumes "qsort_conforms qs" "0 < n" "i < nat n"
  shows "\<exists>a < nat n. sortvector qs n v pos ! a = i"
proof -
  have "i \<in> set (sortvector qs n v pos)"
    using sortvector_set [OF assms(1,2)] assms(3) by simp
  then show ?thesis
    using sortvector_length [OF assms(1,2), of v pos] by (auto simp: in_set_conv_nth)
qed

lemma sortvector_descending_nth:
  assumes "qsort_conforms qs" "0 < n" "a < b" "b < nat n"
  shows "v ! (sortvector qs n v pos ! b) \<le> v ! (sortvector qs n v pos ! a)"
proof -
  let ?p = "sortvector qs n v pos"
  have len: "length ?p = nat n"
    by (rule sortvector_length [OF assms(1,2)])
  have "map (\<lambda>i. v ! i) ?p ! b \<le> map (\<lambda>i. v ! i) ?p ! a"
    using sortvector_descending [OF assms(1,2), of v pos] assms(3,4) len
    by (simp add: sorted_wrt_iff_nth_less del: nth_map)
  then show ?thesis
    using len assms(3,4) by simp
qed

text \<open>The sort that puts an element in front of its equals is stable: entries with equal
  values come out in the order of their indices.\<close>

lemma insert_front_stable:
  assumes "sorted_wrt (\<lambda>a b. iv_v b < iv_v a \<or> (iv_v a = iv_v b \<and> iv_i a < iv_i b)) ys"
    and "\<forall>y \<in> set ys. iv_i x < iv_i y"
  shows "sorted_wrt (\<lambda>a b. iv_v b < iv_v a \<or> (iv_v a = iv_v b \<and> iv_i a < iv_i b))
           (insert_front cmp_iv x ys)"
  using assms
proof (induction ys)
  case Nil
  show ?case by simp
next
  case (Cons y ys)
  show ?case
  proof (cases "cmp_iv x y \<le> 0")
    case True
    then have xy: "iv_v y \<le> iv_v x"
      by (simp add: cmp_iv_le0)
    have "iv_v z \<le> iv_v y" if "z \<in> set ys" for z
      using Cons.prems(1) that by auto
    then have "iv_v z < iv_v x \<or> (iv_v x = iv_v z \<and> iv_i x < iv_i z)" if "z \<in> set (y # ys)" for z
      using that xy Cons.prems(2) by fastforce
    then show ?thesis
      using True Cons.prems(1) by auto
  next
    case False
    then have "iv_v x < iv_v y"
      by (simp add: cmp_iv_le0)
    moreover have "sorted_wrt (\<lambda>a b. iv_v b < iv_v a \<or> (iv_v a = iv_v b \<and> iv_i a < iv_i b))
           (insert_front cmp_iv x ys)"
      using Cons.prems by (intro Cons.IH) simp_all
    ultimately show ?thesis
      using False Cons.prems(1) by (auto simp: set_insert_front)
  qed
qed

lemma qsort_stable_order:
  assumes "sorted_wrt (\<lambda>a b. iv_i a < iv_i b) xs"
  shows "sorted_wrt (\<lambda>a b. iv_v b < iv_v a \<or> (iv_v a = iv_v b \<and> iv_i a < iv_i b))
           (qsort_stable cmp_iv xs)"
  unfolding qsort_stable_def using assms
proof (induction xs)
  case Nil
  show ?case by simp
next
  case (Cons x xs)
  have "set (foldr (insert_front cmp_iv) xs []) = set xs"
    using qsort_stable_conforms
    by (metis mset_eq_setD qsort_conforms_def qsort_stable_def)
  then show ?case
    using Cons by (auto intro!: insert_front_stable)
qed

lemma sortvector_stable:
  assumes "0 < n" "a < b" "b < nat n"
  shows "v ! (sortvector qsort_stable n v pos ! b) < v ! (sortvector qsort_stable n v pos ! a)
       \<or> (v ! (sortvector qsort_stable n v pos ! a) = v ! (sortvector qsort_stable n v pos ! b)
          \<and> sortvector qsort_stable n v pos ! a < sortvector qsort_stable n v pos ! b)"
proof -
  let ?iv = "map (\<lambda>i. \<lparr>iv_v = v ! i, iv_i = i\<rparr>) [0..<nat n]"
  let ?iv' = "qsort_stable cmp_iv ?iv"
  let ?R = "\<lambda>a b. iv_v b < iv_v a \<or> (iv_v a = iv_v b \<and> iv_i a < iv_i b)"
  have p: "sortvector qsort_stable n v pos = map iv_i ?iv'"
    using assms(1) by (simp add: sortvector_def Let_def)
  have len: "length ?iv' = nat n"
    using qsort_stable_conforms by (metis length_map length_upt minus_nat.diff_0 qsort_conforms_def size_mset)
  have "mset ?iv' = mset ?iv"
    using qsort_stable_conforms by (simp add: qsort_conforms_def)
  then have "set ?iv' = set ?iv"
    by (rule mset_eq_setD)
  then have val: "v ! iv_i e = iv_v e" if "e \<in> set ?iv'" for e
    using that by auto
  have "sorted_wrt (\<lambda>a b. iv_i a < iv_i b) ?iv"
    by (simp add: sorted_wrt_map)
  then have "sorted_wrt ?R ?iv'"
    by (rule qsort_stable_order)
  then have "?R (?iv' ! a) (?iv' ! b)"
    using assms(2,3) len by (simp add: sorted_wrt_iff_nth_less)
  moreover have "v ! iv_i (?iv' ! a) = iv_v (?iv' ! a)" "v ! iv_i (?iv' ! b) = iv_v (?iv' ! b)"
    using assms(2,3) len by (simp_all add: val)
  ultimately show ?thesis
    unfolding p using assms(2,3) len by simp
qed

lemma sortvector_stable_ties:
  assumes "0 < n" "length w = nat n"
  shows "ties_keep_order w (sortvector qsort_stable n w [])"
  unfolding ties_keep_order_def
proof (intro allI impI)
  fix i j
  let ?p = "sortvector qsort_stable n w []"
  assume ij: "i < j \<and> j < length w \<and> w ! i = w ! j"
  then have i: "i < nat n" and j: "j < nat n"
    using assms(2) by simp_all
  obtain a where a: "a < nat n" "?p ! a = i"
    using sortvector_position [OF qsort_stable_conforms assms(1) i] by blast
  obtain b where b: "b < nat n" "?p ! b = j"
    using sortvector_position [OF qsort_stable_conforms assms(1) j] by blast
  have "\<not> b < a"
    using sortvector_stable [OF assms(1) _ a(1), of b w "[]"] a b ij by auto
  moreover have "a \<noteq> b"
    using a b ij by auto
  ultimately have "a < b" by simp
  moreover have "length ?p = nat n"
    by (rule sortvector_length [OF qsort_stable_conforms assms(1)])
  ultimately show "\<exists>a b. a < b \<and> b < length ?p \<and> ?p ! a = i \<and> ?p ! b = j"
    using a b by auto
qed

text \<open>On an array that is already in order, that sort changes nothing.\<close>

lemma qsort_stable_sorted:
  "sorted_wrt (\<lambda>a b. cmp a b \<le> 0) xs \<Longrightarrow> qsort_stable cmp xs = xs"
  unfolding qsort_stable_def
proof (induction xs)
  case Nil
  show ?case by simp
next
  case (Cons x xs)
  then have "foldr (insert_front cmp) xs [] = xs"
    by simp
  then show ?case
    using Cons.prems by (cases xs) simp_all
qed

lemma sortvector_stable_descending:
  assumes "0 < n" "length w = nat n" "sorted_wrt (\<lambda>x y. y \<le> x) w"
  shows "sortvector qsort_stable n w pos = [0..<nat n]"
proof -
  let ?iv = "map (\<lambda>i. \<lparr>iv_v = w ! i, iv_i = i\<rparr>) [0..<nat n]"
  have "sorted_wrt (\<lambda>i j. w ! j \<le> w ! i) [0..<nat n]"
    using assms(2,3) by (simp add: sorted_wrt_iff_nth_less)
  then have "sorted_wrt (\<lambda>a b. cmp_iv a b \<le> 0) ?iv"
    by (simp add: sorted_wrt_map cmp_iv_le0)
  then have "qsort_stable cmp_iv ?iv = ?iv"
    by (rule qsort_stable_sorted)
  then show ?thesis
    using assms(1) by (simp add: sortvector_def Let_def comp_def)
qed

text \<open>
  Claim C4, as stated, fails: the code hands the tie-break to \<open>qsort\<close>, whose comparison
  function \<open>cmp_iv\<close> returns 0 for equal values and never looks at the index. With a
  conforming \<open>qsort\<close> that reverses ties, \<open>w = [1, 1]\<close> is sorted to the order
  \<open>[1, 0]\<close>.
\<close>

theorem sortvector_counterexample_unstable:
  "qsort_conforms qsort_reversing
   \<and> sortvector qsort_reversing 2 [1, 1] [] = [1, 0]
   \<and> \<not> ties_keep_order [1, 1] (sortvector qsort_reversing 2 [1, 1] [])"
proof -
  have sv: "sortvector qsort_reversing 2 [1, 1] [] = [1, 0]"
    by (simp add: sortvector_def qsort_reversing_def cmp_iv_def upt_rec)
  have "\<not> ties_keep_order [1, 1] [1, 0]"
  proof
    assume t: "ties_keep_order [1, 1] [1, 0]"
    have "\<exists>a b. a < b \<and> b < length [1, 0::nat] \<and> [1, 0::nat] ! a = 0 \<and> [1, 0::nat] ! b = 1"
      by (rule t [unfolded ties_keep_order_def, rule_format, of 0 1]) simp
    then obtain a b where ab: "a < b" "b < 2" "[1, 0::nat] ! a = 0"
      by auto
    then have "a = 0"
      by simp
    then show False
      using ab(3) by simp
  qed
  then show ?thesis
    using sv qsort_reversing_conforms by simp
qed

text \<open>
  Claim C4, amended. With any conforming \<open>qsort\<close>, the permutation \<open>svd_sort\<close> applies is
  a descending sort of \<open>w\<close>: values never increase along the sorted order, and of two
  indices with different values the one with the larger value comes first. The order of
  indices with equal values is whatever \<open>qsort\<close> returns; it is the original order when
  \<open>qsort\<close> is the stable sort.
\<close>

theorem sortvector_orders_unequal:
  assumes "qsort_conforms qs" and "1 \<le> n" and "length w = nat n" and "p = sortvector qs n w []"
  shows "(\<forall>a < nat n. \<forall>b < nat n. a < b \<longrightarrow> w ! (p ! b) \<le> w ! (p ! a))
       \<and> (\<forall>i < nat n. \<forall>j < nat n. w ! j < w ! i \<longrightarrow> (\<exists>a b. a < b \<and> b < nat n \<and> p ! a = i \<and> p ! b = j))
       \<and> (qs = qsort_stable \<longrightarrow> ties_keep_order w p)"
proof -
  have n0: "0 < n" using assms(2) by simp
  have desc: "w ! (p ! b) \<le> w ! (p ! a)" if "a < b" "b < nat n" for a b
    unfolding assms(4) by (rule sortvector_descending_nth [OF assms(1) n0 that])
  have place: "\<exists>a b. a < b \<and> b < nat n \<and> p ! a = i \<and> p ! b = j"
    if i: "i < nat n" and j: "j < nat n" and less: "w ! j < w ! i" for i j
  proof -
    obtain a where a: "a < nat n" "p ! a = i"
      using sortvector_position [OF assms(1) n0 i] assms(4) by blast
    obtain b where b: "b < nat n" "p ! b = j"
      using sortvector_position [OF assms(1) n0 j] assms(4) by blast
    have "\<not> b < a"
      using desc [of b a] a b less by auto
    moreover have "a \<noteq> b"
      using a b less by auto
    ultimately have "a < b" by simp
    then show ?thesis using a b by blast
  qed
  have stable: "ties_keep_order w p" if "qs = qsort_stable"
    unfolding assms(4) that by (rule sortvector_stable_ties [OF n0 assms(3)])
  show ?thesis
    using desc place stable by blast
qed

theorem sortvector_orders_unequal_witness:
  "qsort_conforms qsort_reversing
   \<and> sortvector qsort_reversing 3 [2, 5, 2] [] = [1, 2, 0]
   \<and> (\<exists>a b. a < b \<and> b < nat 3 \<and> [1, 2, 0] ! a = (1::nat) \<and> [1, 2, 0] ! b = (0::nat))"
proof -
  have sv: "sortvector qsort_reversing 3 [2, 5, 2] [] = [1, 2, 0]"
    by (simp add: sortvector_def qsort_reversing_def cmp_iv_def upt_rec)
  have "\<exists>a b. a < b \<and> b < nat 3 \<and> [1, 2, 0] ! a = (1::nat) \<and> [1, 2, 0] ! b = (0::nat)"
    using sortvector_orders_unequal [OF qsort_reversing_conforms _ _ sv [symmetric]]
    by (auto dest!: spec [of _ "1::nat"] spec [of _ "0::nat"])
  then show ?thesis
    using sv qsort_reversing_conforms by simp
qed

subsection \<open>A second call\<close>

lemma descending_unique:
  fixes xs ys :: "real list"
  assumes "sorted_wrt (\<lambda>x y. y \<le> x) xs" "sorted_wrt (\<lambda>x y. y \<le> x) ys" "mset xs = mset ys"
  shows "xs = ys"
proof -
  have "sorted (rev xs)" "sorted (rev ys)"
    using assms(1,2) by (simp_all add: sorted_wrt_rev)
  moreover have "mset (rev xs) = mset (rev ys)"
    using assms(3) by simp
  ultimately have "rev xs = rev ys"
    by (metis properties_for_sort)
  then show ?thesis by simp
qed

lemma threshold_idem:
  "(if quot_below (if quot_below x wmax SVD_EPS then 0 else x)
                  (if quot_below wmax wmax SVD_EPS then 0 else wmax) SVD_EPS
    then 0 else (if quot_below x wmax SVD_EPS then 0 else x))
   = (if quot_below x wmax SVD_EPS then 0 else x)"
  by (cases "wmax = 0") (auto simp: quot_below_def SVD_EPS_def)

lemma matrix_eqI:
  assumes "is_matrix r c M" "is_matrix r c M'" "\<And>j i. j < r \<Longrightarrow> i < c \<Longrightarrow> M ! j ! i = M' ! j ! i"
  shows "M = M'"
  using assms by (auto simp: is_matrix_def intro!: nth_equalityI)

text \<open>
  Claim C8, as stated, fails: where singular values are equal, a second call may reorder
  the columns of \<open>A\<close> and \<open>V\<close>. With the conforming \<open>qsort\<close> that reverses ties, the
  output of a first call is changed by a second call.
\<close>

theorem svd_sort_counterexample_not_idempotent:
  "qsort_conforms qsort_reversing
   \<and> svd_sort qsort_reversing 2 1 \<lparr>mat_A = [[1, 2]], vec_w = [1, 1], mat_V = [[1, 0], [0, 1]]\<rparr>
        = Inr \<lparr>mat_A = [[2, 1]], vec_w = [1, 1], mat_V = [[0, 1], [1, 0]]\<rparr>
   \<and> svd_sort qsort_reversing 2 1 \<lparr>mat_A = [[2, 1]], vec_w = [1, 1], mat_V = [[0, 1], [1, 0]]\<rparr>
        = Inr \<lparr>mat_A = [[1, 2]], vec_w = [1, 1], mat_V = [[1, 0], [0, 1]]\<rparr>
   \<and> \<lparr>mat_A = [[1, 2]], vec_w = [1, 1], mat_V = [[1, 0], [0, 1]]\<rparr>
        \<noteq> \<lparr>mat_A = [[2, 1]], vec_w = [1, 1], mat_V = [[0, 1], [1, 0]]\<rparr>"
proof -
  have sv: "sortvector qsort_reversing 2 [1, 1] [] = [1, 0]"
    by (simp add: sortvector_def qsort_reversing_def cmp_iv_def upt_rec)
  have "svd_sort qsort_reversing 2 1 \<lparr>mat_A = [[1, 2]], vec_w = [1, 1], mat_V = [[1, 0], [0, 1]]\<rparr>
        = Inr \<lparr>mat_A = [[2, 1]], vec_w = [1, 1], mat_V = [[0, 1], [1, 0]]\<rparr>"
    by (simp add: svd_sort_def sv sort_body_def mat_set_def upt_rec Let_def quot_below_def SVD_EPS_def)
  moreover have "svd_sort qsort_reversing 2 1 \<lparr>mat_A = [[2, 1]], vec_w = [1, 1], mat_V = [[0, 1], [1, 0]]\<rparr>
        = Inr \<lparr>mat_A = [[1, 2]], vec_w = [1, 1], mat_V = [[1, 0], [0, 1]]\<rparr>"
    by (simp add: svd_sort_def sv sort_body_def mat_set_def upt_rec Let_def quot_below_def SVD_EPS_def)
  ultimately show ?thesis
    using qsort_reversing_conforms by simp
qed

text \<open>
  Claim C8, amended. For any conforming \<open>qsort\<close>, a second call of \<open>svd_sort\<close> on the
  output of a first call leaves \<open>w\<close> unchanged and can move a column of \<open>A\<close> and \<open>V\<close>
  only to a position that carries the same singular value; when the singular values of the
  first output are pairwise different, or when \<open>qsort\<close> is the stable sort, the second call
  is a no-op.
\<close>

theorem svd_sort_twice:
  assumes "qsort_conforms qs" and "1 \<le> n" and "1 \<le> m"
    and "triad_ok (nat n) (nat m) t"
    and "svd_sort qs n m t = Inr t1"
    and "svd_sort qs n m t1 = Inr t2"
    and "q = sortvector qs n (vec_w t1) []"
  shows "vec_w t2 = vec_w t1
      \<and> mset q = mset [0..<nat n]
      \<and> (\<forall>i < nat n. vec_w t1 ! (q ! i) = vec_w t1 ! i)
      \<and> (\<forall>i < nat n. \<forall>j < nat m. mat_A t2 ! j ! i = mat_A t1 ! j ! (q ! i))
      \<and> (\<forall>i < nat n. \<forall>j < nat n. mat_V t2 ! j ! i = mat_V t1 ! j ! (q ! i))
      \<and> (distinct (vec_w t1) \<longrightarrow> t2 = t1)
      \<and> (qs = qsort_stable \<longrightarrow> t2 = t1)"
proof -
  let ?N = "nat n" and ?M = "nat m"
  define p where "p = sortvector qs n (vec_w t) []"
  define x0 where "x0 = vec_w t ! (p ! 0)"
  let ?w1 = "vec_w t1"
  have n0: "0 < n" and N0: "0 < ?N" using assms(2) by simp_all
  have t1: "t1 = sorted_upto ?N ?M (vec_w t) (mat_A t) (mat_V t) p x0 ?N t"
    using svd_sort_result [OF assms(1-4)] assms(5) by (simp add: p_def x0_def)
  have ok1: "triad_ok ?N ?M t1"
    unfolding t1 by (rule sorted_upto_ok)
  have len1: "length ?w1 = ?N"
    using ok1 by (simp add: triad_ok_def)
  have w1_nth: "?w1 ! i = (if quot_below (vec_w t ! (p ! i)) x0 SVD_EPS then 0 else vec_w t ! (p ! i))"
    if "i < ?N" for i
    using that unfolding t1 by (simp add: sorted_upto_nth)
  have desc1: "sorted_wrt (\<lambda>x y. y \<le> x) ?w1"
    unfolding t1 x0_def by (rule sorted_result_descending [OF assms(1) n0 p_def])
  have t2: "t2 = sorted_upto ?N ?M ?w1 (mat_A t1) (mat_V t1) q (?w1 ! (q ! 0)) ?N t1"
    using svd_sort_result [OF assms(1-3) ok1] assms(6,7) by simp
  have ok2: "triad_ok ?N ?M t2"
    unfolding t2 by (rule sorted_upto_ok)
  have permq: "mset q = mset [0..<?N]"
    unfolding assms(7) by (rule sortvector_mset [OF assms(1) n0])
  have lenq: "length q = ?N"
    unfolding assms(7) by (rule sortvector_length [OF assms(1) n0])
  have q_less: "q ! i < ?N" if "i < ?N" for i
    unfolding assms(7) by (rule sortvector_nth_less [OF assms(1) n0 that])
  have "mset (map (\<lambda>i. ?w1 ! i) q) = image_mset (\<lambda>i. ?w1 ! i) (mset [0..<?N])"
    using permq by (simp only: mset_map)
  also have "\<dots> = mset (map (\<lambda>i. ?w1 ! i) [0..<?N])"
    by (simp only: mset_map)
  also have "map (\<lambda>i. ?w1 ! i) [0..<?N] = ?w1"
    using len1 map_nth [of ?w1] by simp
  finally have "mset (map (\<lambda>i. ?w1 ! i) q) = mset ?w1" .
  moreover have "sorted_wrt (\<lambda>x y. y \<le> x) (map (\<lambda>i. ?w1 ! i) q)"
    unfolding assms(7) by (rule sortvector_descending [OF assms(1) n0])
  ultimately have same: "map (\<lambda>i. ?w1 ! i) q = ?w1"
    using desc1 by (intro descending_unique)
  have fixed: "?w1 ! (q ! i) = ?w1 ! i" if "i < ?N" for i
  proof -
    have "map (\<lambda>i. ?w1 ! i) q ! i = ?w1 ! i"
      by (simp only: same)
    then show ?thesis using that lenq by simp
  qed
  have w2_nth: "vec_w t2 ! i = ?w1 ! i" if i: "i < ?N" for i
  proof -
    have "vec_w t2 ! i = (if quot_below (?w1 ! (q ! i)) (?w1 ! (q ! 0)) SVD_EPS then 0 else ?w1 ! (q ! i))"
      using i unfolding t2 by (simp add: sorted_upto_nth)
    also have "\<dots> = (if quot_below (?w1 ! i) (?w1 ! 0) SVD_EPS then 0 else ?w1 ! i)"
      using fixed [OF i] fixed [OF N0] by simp
    also have "\<dots> = ?w1 ! i"
      unfolding w1_nth [OF i] w1_nth [OF N0] x0_def [symmetric] by (rule threshold_idem)
    finally show ?thesis .
  qed
  have w2: "vec_w t2 = ?w1"
    using ok2 len1 w2_nth by (auto simp: triad_ok_def intro!: nth_equalityI)
  have A2: "mat_A t2 ! j ! i = mat_A t1 ! j ! (q ! i)" if "i < ?N" "j < ?M" for i j
    using that unfolding t2 by (simp add: sorted_upto_nth)
  have V2: "mat_V t2 ! j ! i = mat_V t1 ! j ! (q ! i)" if "i < ?N" "j < ?N" for i j
    using that unfolding t2 by (simp add: sorted_upto_nth)
  have same_triad: "t2 = t1" if qi: "\<And>i. i < ?N \<Longrightarrow> q ! i = i"
  proof -
    have "mat_A t2 = mat_A t1"
      using ok1 ok2 A2 qi by (intro matrix_eqI [of ?M ?N]) (simp_all add: triad_ok_def)
    moreover have "mat_V t2 = mat_V t1"
      using ok1 ok2 V2 qi by (intro matrix_eqI [of ?N ?N]) (simp_all add: triad_ok_def)
    ultimately show ?thesis
      using w2 by simp
  qed
  have by_distinct: "t2 = t1" if d: "distinct ?w1"
  proof (rule same_triad)
    fix i
    assume i: "i < ?N"
    show "q ! i = i"
      using fixed [OF i] q_less [OF i] i d len1 by (simp add: nth_eq_iff_index_eq)
  qed
  have by_stable: "t2 = t1" if s: "qs = qsort_stable"
  proof (rule same_triad)
    fix i
    assume i: "i < ?N"
    have "q = [0..<?N]"
      unfolding assms(7) s by (rule sortvector_stable_descending [OF n0 len1 desc1])
    then show "q ! i = i"
      using i by simp
  qed
  show ?thesis
    using w2 permq fixed A2 V2 by_distinct by_stable by blast
qed

theorem svd_sort_twice_witness:
  "qsort_conforms qsort_reversing
   \<and> triad_ok (nat 2) (nat 1) \<lparr>mat_A = [[1, 2]], vec_w = [1, 3], mat_V = [[1, 0], [0, 1]]\<rparr>
   \<and> svd_sort qsort_reversing 2 1 \<lparr>mat_A = [[1, 2]], vec_w = [1, 3], mat_V = [[1, 0], [0, 1]]\<rparr>
        = Inr \<lparr>mat_A = [[2, 1]], vec_w = [3, 1], mat_V = [[0, 1], [1, 0]]\<rparr>
   \<and> distinct (vec_w \<lparr>mat_A = [[2, 1]], vec_w = [3, 1], mat_V = [[0, 1], [1, 0]]\<rparr>)
   \<and> svd_sort qsort_reversing 2 1 \<lparr>mat_A = [[2, 1]], vec_w = [3, 1], mat_V = [[0, 1], [1, 0]]\<rparr>
        = Inr \<lparr>mat_A = [[2, 1]], vec_w = [3, 1], mat_V = [[0, 1], [1, 0]]\<rparr>"
proof -
  let ?t = "\<lparr>mat_A = [[1, 2]], vec_w = [1, 3], mat_V = [[1, 0], [0, 1]]\<rparr>"
  let ?t1 = "\<lparr>mat_A = [[2, 1]], vec_w = [3, 1], mat_V = [[0, 1], [1, 0]]\<rparr>"
  have ok: "triad_ok (nat 2) (nat 1) ?t"
    by (simp add: triad_ok_def is_matrix_def)
  have sv: "sortvector qsort_reversing 2 [1, 3] [] = [1, 0]"
    by (simp add: sortvector_def qsort_reversing_def cmp_iv_def upt_rec)
  have run1: "svd_sort qsort_reversing 2 1 ?t = Inr ?t1"
    by (simp add: svd_sort_def sv sort_body_def mat_set_def upt_rec Let_def quot_below_def SVD_EPS_def)
  obtain t2 where run2: "svd_sort qsort_reversing 2 1 ?t1 = Inr t2"
    by (simp add: svd_sort_def Let_def)
  have d: "distinct (vec_w ?t1)"
    by simp
  have "t2 = ?t1"
    using svd_sort_twice [OF qsort_reversing_conforms _ _ ok run1 run2 refl] d by simp
  then show ?thesis
    using qsort_reversing_conforms ok run1 run2 d by simp
qed

section \<open>Properties of svd_invs\<close>

subsection \<open>What \<open>svd_invs\<close> does not write\<close>

text \<open>A property that every round of a loop preserves holds after the loop.\<close>

lemma fold_preserves:
  assumes "\<And>x s. P s \<Longrightarrow> P (f x s)" and "P s"
  shows "P (fold f xs s)"
  using assms(2) by (induction xs arbitrary: s) (simp_all add: assms(1))


lemma invs_scale_column_frame: "invs_frame A w V s \<Longrightarrow> invs_frame A w V (invs_scale_column n i s)"
  unfolding invs_scale_column_def
  by (rule fold_preserves [where P = "invs_frame A w V"]) (simp_all add: invs_frame_def)

lemma invs_entry_frame: "invs_frame A w V s \<Longrightarrow> invs_frame A w V (invs_entry mnmin i j s)"
  unfolding invs_entry_def
  by (rule fold_preserves [where P = "invs_frame A w V"]) (simp_all add: invs_frame_def)

lemma invs_row_frame: "invs_frame A w V s \<Longrightarrow> invs_frame A w V (invs_row m mnmin i s)"
  unfolding invs_row_def
  by (rule fold_preserves [where P = "invs_frame A w V"]) (simp_all add: invs_entry_frame)

subsection \<open>What \<open>svd_invs\<close> computes\<close>

lemma mat_set_nth_same:
  "i < length M \<Longrightarrow> j < length (M ! i) \<Longrightarrow> mat_set M i j v ! i ! j = v"
  by (simp add: mat_set_def)

lemma mat_set_twice: "mat_set (mat_set M i j u) i j v = mat_set M i j v"
  by (cases "i < length M") (simp_all add: mat_set_def list_update_beyond)

lemma invs_scale_column_eq:
  "fold (\<lambda>j s. s\<lparr>st_vtemp := mat_set (st_vtemp s) j i (st_V s ! j ! i / st_w s ! i)\<rparr>) js s
     = s\<lparr>st_vtemp := fold (\<lambda>j M. mat_set M j i (st_V s ! j ! i / st_w s ! i)) js (st_vtemp s)\<rparr>"
  by (induction js arbitrary: s) simp_all

lemma scaled_upto_step:
  assumes "k < n"
  shows "invs_scale_column n k (scaled_upto n k s) = scaled_upto n (Suc k) s"
proof -
  let ?s = "scaled_upto n k s"
  have len: "length (st_vtemp ?s) = n"
    by (simp add: scaled_upto_def)
  have "fold (\<lambda>j M. mat_set M j k (st_V ?s ! j ! k / st_w ?s ! k)) [0..<n] (st_vtemp ?s)
      = st_vtemp (scaled_upto n (Suc k) s)"
    using col_write_all [of k "\<lambda>j. st_V ?s ! j ! k / st_w ?s ! k" "st_vtemp ?s"] assms
    unfolding len
    by (auto simp: scaled_upto_def intro!: nth_equalityI simp: nth_list_update less_Suc_eq)
  then show ?thesis
    unfolding invs_scale_column_def invs_scale_column_eq
    by (simp add: scaled_upto_def)
qed

lemma scale_loop_upto:
  assumes "is_matrix n n (st_V s)" "st_vtemp s = st_V s" "k \<le> n"
  shows "fold (invs_scale_column n) [0..<k] s = scaled_upto n k s"
  using assms(3)
proof (induction k)
  case 0
  have "map (\<lambda>j. map (\<lambda>c. st_V s ! j ! c) [0..<n]) [0..<n] = st_V s"
    using is_matrix_eq [OF assms(1)] by simp
  then show ?case
    using assms(2) by (simp add: scaled_upto_def)
next
  case (Suc k)
  then show ?case by (simp add: scaled_upto_step)
qed

lemma invs_entry_vtemp [simp]: "st_vtemp (invs_entry mnmin i j s) = st_vtemp s"
  unfolding invs_entry_def
  by (rule fold_preserves [where P = "\<lambda>t. st_vtemp t = st_vtemp s"]) simp_all

lemma invs_row_vtemp [simp]: "st_vtemp (invs_row m mnmin i s) = st_vtemp s"
  unfolding invs_row_def
  by (rule fold_preserves [where P = "\<lambda>t. st_vtemp t = st_vtemp s"]) simp_all

text \<open>
  Claim C6. For \<open>n \<ge> 1\<close> (and any \<open>m\<close>, any arrays), \<open>svd_invs\<close> returns normally and leaves
  \<open>A\<close>, \<open>w\<close> and \<open>V\<close> exactly as they were: its writes go to \<open>AT\<close> and to the scratch
  copy \<open>vtemp\<close> only, and \<open>vtemp\<close> ends as \<open>V\<close> with its first \<open>min(n, m)\<close> columns
  divided by the entries of \<open>w\<close>.
\<close>

theorem svd_invs_frame:
  assumes "1 \<le> n"
  shows "\<exists>s. svd_invs AT A n m w V = Inr s \<and> st_A s = A \<and> st_w s = w \<and> st_V s = V
      \<and> (is_matrix (nat n) (nat n) V \<longrightarrow>
           (\<forall>j < nat n. \<forall>i < nat n.
              st_vtemp s ! j ! i = (if i < min (nat n) (nat m) then V ! j ! i / w ! i else V ! j ! i)))"
proof -
  let ?s0 = "\<lparr>st_AT = AT, st_A = A, st_w = w, st_V = V, st_vtemp = V\<rparr>"
  let ?mn = "min (nat n) (nat m)"
  let ?s1 = "fold (invs_scale_column (nat n)) [0..<?mn] ?s0"
  let ?s2 = "fold (invs_row (nat m) ?mn) [0..<nat n] ?s1"
  have mn: "nat (if n < m then n else m) = ?mn"
    by simp
  have "invs_frame A w V ?s0"
    by (simp add: invs_frame_def)
  then have "invs_frame A w V ?s1"
    by (rule fold_preserves [where P = "invs_frame A w V", rotated]) (rule invs_scale_column_frame)
  then have frame: "invs_frame A w V ?s2"
    by (rule fold_preserves [where P = "invs_frame A w V", rotated]) (rule invs_row_frame)
  have res: "svd_invs AT A n m w V = Inr ?s2"
    using assms unfolding svd_invs_def Let_def mn by simp
  have vt2: "st_vtemp ?s2 = st_vtemp ?s1"
    by (rule fold_preserves [where P = "\<lambda>t. st_vtemp t = st_vtemp ?s1"]) simp_all
  have "st_vtemp ?s2 ! j ! i = (if i < ?mn then V ! j ! i / w ! i else V ! j ! i)"
    if "is_matrix (nat n) (nat n) V" "j < nat n" "i < nat n" for i j
  proof -
    have "?s1 = scaled_upto (nat n) ?mn ?s0"
      using that(1) by (intro scale_loop_upto) simp_all
    then show ?thesis
      unfolding vt2 using that(2,3) by (simp add: scaled_upto_def)
  qed
  then show ?thesis
    using res frame by (simp add: invs_frame_def)
qed

theorem svd_invs_frame_witness:
  "(1::int) \<le> 1 \<and> (\<exists>s. svd_invs [[0]] [[2]] 1 1 [4] [[1]] = Inr s \<and> st_A s = [[2]] \<and> st_w s = [4] \<and> st_V s = [[1]])"
  using svd_invs_frame [of 1 "[[0]]" "[[2]]" 1 "[4]" "[[1]]"] by auto

lemma invs_entry_eq:
  assumes "i < length (st_AT s)" "j < length (st_AT s ! i)"
  shows "invs_entry mnmin i j s
       = s\<lparr>st_AT := mat_set (st_AT s) i j (\<Sum>k < mnmin. st_vtemp s ! i ! k * st_A s ! j ! k)\<rparr>"
proof -
  let ?body = "\<lambda>k s. s\<lparr>st_AT := mat_set (st_AT s) i j (st_AT s ! i ! j + st_vtemp s ! i ! k * st_A s ! j ! k)\<rparr>"
  have "fold ?body [0..<K] (s\<lparr>st_AT := mat_set (st_AT s) i j 0\<rparr>)
      = s\<lparr>st_AT := mat_set (st_AT s) i j (\<Sum>k < K. st_vtemp s ! i ! k * st_A s ! j ! k)\<rparr>" for K
  proof (induction K)
    case 0
    show ?case by simp
  next
    case (Suc K)
    show ?case
      using assms by (simp add: Suc mat_set_twice mat_set_nth_same)
  qed
  then show ?thesis
    by (simp add: invs_entry_def)
qed

lemma invs_row_upto:
  assumes "i < length (st_AT s)" "length (st_AT s ! i) = m" "J \<le> m"
  shows "fold (invs_entry mnmin i) [0..<J] s
       = s\<lparr>st_AT := (st_AT s)[i := map (\<lambda>j. if j < J then (\<Sum>k < mnmin. st_vtemp s ! i ! k * st_A s ! j ! k)
                                              else st_AT s ! i ! j) [0..<m]]\<rparr>"
  using assms(3)
proof (induction J)
  case 0
  have "map (\<lambda>j. st_AT s ! i ! j) [0..<m] = st_AT s ! i"
    using assms(2) map_nth [of "st_AT s ! i"] by simp
  then show ?case by simp
next
  case (Suc J)
  let ?row = "map (\<lambda>j. if j < J then (\<Sum>k < mnmin. st_vtemp s ! i ! k * st_A s ! j ! k)
                         else st_AT s ! i ! j) [0..<m]"
  let ?prev = "s\<lparr>st_AT := (st_AT s)[i := ?row]\<rparr>"
  have J: "J < m" using Suc.prems by simp
  have prev: "fold (invs_entry mnmin i) [0..<J] s = ?prev"
    using Suc by simp
  have "invs_entry mnmin i J ?prev
      = ?prev\<lparr>st_AT := mat_set (st_AT ?prev) i J (\<Sum>k < mnmin. st_vtemp ?prev ! i ! k * st_A ?prev ! J ! k)\<rparr>"
    using assms(1) J by (intro invs_entry_eq) simp_all
  also have "\<dots> = s\<lparr>st_AT := (st_AT s)[i := ?row[J := (\<Sum>k < mnmin. st_vtemp s ! i ! k * st_A s ! J ! k)]]\<rparr>"
    using assms(1) by (simp add: mat_set_def)
  also have "?row[J := (\<Sum>k < mnmin. st_vtemp s ! i ! k * st_A s ! J ! k)]
      = map (\<lambda>j. if j < Suc J then (\<Sum>k < mnmin. st_vtemp s ! i ! k * st_A s ! j ! k)
                  else st_AT s ! i ! j) [0..<m]"
    using J by (auto intro!: nth_equalityI simp: nth_list_update less_Suc_eq)
  finally show ?case
    using prev by simp
qed

lemma invs_row_eq:
  assumes "i < length (st_AT s)" "length (st_AT s ! i) = m"
  shows "invs_row m mnmin i s
       = s\<lparr>st_AT := (st_AT s)[i := map (\<lambda>j. \<Sum>k < mnmin. st_vtemp s ! i ! k * st_A s ! j ! k) [0..<m]]\<rparr>"
proof -
  have "map (\<lambda>j. if j < m then (\<Sum>k < mnmin. st_vtemp s ! i ! k * st_A s ! j ! k) else st_AT s ! i ! j) [0..<m]
      = map (\<lambda>j. \<Sum>k < mnmin. st_vtemp s ! i ! k * st_A s ! j ! k) [0..<m]"
    by (auto intro!: nth_equalityI)
  then show ?thesis
    unfolding invs_row_def invs_row_upto [OF assms order_refl] by (simp only:)
qed

lemma invs_rows_upto:
  assumes "is_matrix n m (st_AT s)" "I \<le> n"
  shows "fold (invs_row m mnmin) [0..<I] s
       = s\<lparr>st_AT := map (\<lambda>i. if i < I then map (\<lambda>j. \<Sum>k < mnmin. st_vtemp s ! i ! k * st_A s ! j ! k) [0..<m]
                                else st_AT s ! i) [0..<n]\<rparr>"
  using assms(2)
proof (induction I)
  case 0
  have "map (\<lambda>i. st_AT s ! i) [0..<n] = st_AT s"
    using assms(1) map_nth [of "st_AT s"] by (simp add: is_matrix_def)
  then show ?case by simp
next
  case (Suc I)
  let ?AT = "map (\<lambda>i. if i < I then map (\<lambda>j. \<Sum>k < mnmin. st_vtemp s ! i ! k * st_A s ! j ! k) [0..<m]
                        else st_AT s ! i) [0..<n]"
  let ?prev = "s\<lparr>st_AT := ?AT\<rparr>"
  have I: "I < n" using Suc.prems by simp
  have prev: "fold (invs_row m mnmin) [0..<I] s = ?prev"
    using Suc by simp
  have row: "length (st_AT ?prev ! I) = m"
    using I assms(1) by (simp add: is_matrix_def)
  have "invs_row m mnmin I ?prev
      = ?prev\<lparr>st_AT := (st_AT ?prev)[I := map (\<lambda>j. \<Sum>k < mnmin. st_vtemp ?prev ! I ! k * st_A ?prev ! j ! k) [0..<m]]\<rparr>"
    using I row by (intro invs_row_eq) simp_all
  also have "\<dots> = s\<lparr>st_AT := ?AT[I := map (\<lambda>j. \<Sum>k < mnmin. st_vtemp s ! I ! k * st_A s ! j ! k) [0..<m]]\<rparr>"
    by simp
  also have "?AT[I := map (\<lambda>j. \<Sum>k < mnmin. st_vtemp s ! I ! k * st_A s ! j ! k) [0..<m]]
      = map (\<lambda>i. if i < Suc I then map (\<lambda>j. \<Sum>k < mnmin. st_vtemp s ! i ! k * st_A s ! j ! k) [0..<m]
                  else st_AT s ! i) [0..<n]"
    using I by (auto intro!: nth_equalityI simp: nth_list_update less_Suc_eq)
  finally show ?case
    using prev by simp
qed

text \<open>
  Claim C2. For \<open>n \<ge> 1\<close>, \<open>m \<ge> 1\<close>, arrays of the right shapes and \<open>w[k] \<noteq> 0\<close> for every
  \<open>k < min(n, m)\<close>, \<open>svd_invs\<close> returns normally with
  \<open>AT[i][j] = \<Sum>k < min(n, m). (V[i][k] / w[k]) * A[j][k]\<close> for all \<open>i < n\<close>, \<open>j < m\<close>.
\<close>

theorem svd_invs_formula:
  assumes "1 \<le> n" and "1 \<le> m"
    and "is_matrix (nat n) (nat m) AT" and "is_matrix (nat m) (nat n) A"
    and "length w = nat n" and "is_matrix (nat n) (nat n) V"
    and "\<forall>k < min (nat n) (nat m). w ! k \<noteq> 0"
  shows "\<exists>s. svd_invs AT A n m w V = Inr s
      \<and> (\<forall>i < nat n. \<forall>j < nat m.
            st_AT s ! i ! j = (\<Sum>k < min (nat n) (nat m). (V ! i ! k / w ! k) * A ! j ! k))"
proof -
  let ?N = "nat n" and ?M = "nat m"
  let ?mn = "min ?N ?M"
  let ?s0 = "\<lparr>st_AT = AT, st_A = A, st_w = w, st_V = V, st_vtemp = V\<rparr>"
  let ?s1 = "fold (invs_scale_column ?N) [0..<?mn] ?s0"
  let ?s2 = "fold (invs_row ?M ?mn) [0..<?N] ?s1"
  have mn: "nat (if n < m then n else m) = ?mn"
    by simp
  have res: "svd_invs AT A n m w V = Inr ?s2"
    using assms(1) unfolding svd_invs_def Let_def mn by simp
  have s1: "?s1 = scaled_upto ?N ?mn ?s0"
    using assms(6) by (intro scale_loop_upto) simp_all
  have vt: "st_vtemp ?s1 ! i ! k = V ! i ! k / w ! k" if "i < ?N" "k < ?mn" for i k
    using that unfolding s1 by (simp add: scaled_upto_def)
  have at1: "is_matrix ?N ?M (st_AT ?s1)" and a1: "st_A ?s1 = A"
    using assms(3) unfolding s1 by (simp_all add: scaled_upto_def)
  have s2: "st_AT ?s2 ! i ! j = (\<Sum>k < ?mn. st_vtemp ?s1 ! i ! k * A ! j ! k)" if "i < ?N" "j < ?M" for i j
    using that unfolding invs_rows_upto [OF at1 order_refl] by (simp add: a1)
  have "st_AT ?s2 ! i ! j = (\<Sum>k < ?mn. (V ! i ! k / w ! k) * A ! j ! k)" if "i < ?N" "j < ?M" for i j
    unfolding s2 [OF that] using vt [OF that(1)] by (intro sum.cong) simp_all
  then show ?thesis
    using res by blast
qed

theorem svd_invs_formula_witness:
  "is_matrix (nat 1) (nat 2) [[0, 0]] \<and> is_matrix (nat 2) (nat 1) [[3], [4]] \<and> is_matrix (nat 1) (nat 1) [[5]]
   \<and> (\<exists>s. svd_invs [[0, 0]] [[3], [4]] 1 2 [2] [[5]] = Inr s
        \<and> st_AT s ! 0 ! 0 = 15 / 2 \<and> st_AT s ! 0 ! 1 = 10)"
proof -
  have ok: "is_matrix (nat 1) (nat 2) [[0, 0]]" "is_matrix (nat 2) (nat 1) [[3], [4]]"
      "is_matrix (nat 1) (nat 1) [[5]]"
    by (simp_all add: is_matrix_def)
  have nz: "\<forall>k < min (nat 1) (nat 2). [2::real] ! k \<noteq> 0"
    by simp
  obtain s where run: "svd_invs [[0, 0]] [[3], [4]] 1 2 [2] [[5]] = Inr s"
    and f: "\<forall>i < nat 1. \<forall>j < nat 2.
              st_AT s ! i ! j = (\<Sum>k < min (nat 1) (nat 2). ([[5]] ! i ! k / [2] ! k) * [[3], [4]] ! j ! k)"
    using svd_invs_formula [OF _ _ ok(1,2) _ ok(3) nz] by auto
  have "st_AT s ! 0 ! 0 = 15 / 2"
    using f [rule_format, of 0 0] by simp
  moreover have "st_AT s ! 0 ! 1 = 10"
    using f [rule_format, of 0 1] by simp
  ultimately show ?thesis
    using ok run by simp
qed

section \<open>Properties of svd\<close>

subsection \<open>Loops that write only \<open>A\<close>, \<open>V\<close> and scalars\<close>

lemma obs_wr_updates [simp]:
  "obs_wr (a_A_update u1 st) = obs_wr st"
  "obs_wr (a_V_update u2 st) = obs_wr st"
  "obs_wr (v_c_update u3 st) = obs_wr st"
  "obs_wr (v_f_update u4 st) = obs_wr st"
  "obs_wr (v_g_update u5 st) = obs_wr st"
  "obs_wr (v_h_update u6 st) = obs_wr st"
  "obs_wr (v_s_update u7 st) = obs_wr st"
  "obs_wr (v_scale_update u8 st) = obs_wr st"
  "obs_wr (v_x_update u9 st) = obs_wr st"
  "obs_wr (v_y_update u10 st) = obs_wr st"
  "obs_wr (v_z_update u11 st) = obs_wr st"
  "obs_wr (v_l1_update u12 st) = obs_wr st"
  "obs_wr (v_docancel_update u13 st) = obs_wr st"
  by (simp_all add: obs_wr_def)

lemma obs_wr_fold:
  assumes "\<And>x s. obs_wr (f x s) = obs_wr s"
  shows "obs_wr (fold f xs s) = obs_wr s"
  by (induction xs arbitrary: s) (simp_all add: assms)

lemma obs_wr_fields:
  assumes "obs_wr s = obs_wr t"
  shows "a_w s = a_w t" and "a_rv1 s = a_rv1 t" and "v_tst1 s = v_tst1 t" and "v_l s = v_l t"
  using assms by (simp_all add: obs_wr_def)

lemma hh_col_norm_obs [simp]: "obs_wr (hh_col_norm m i st) = obs_wr st"
  by (simp add: hh_col_norm_def obs_wr_fold Let_def)

lemma hh_col_norm_frame [simp]:
  "a_w (hh_col_norm m i st) = a_w st" "a_rv1 (hh_col_norm m i st) = a_rv1 st"
  "v_tst1 (hh_col_norm m i st) = v_tst1 st" "v_l (hh_col_norm m i st) = v_l st"
  by (rule obs_wr_fields [OF hh_col_norm_obs])+

lemma hh_col_normalize_obs [simp]: "obs_wr (hh_col_normalize m i st) = obs_wr st"
  by (simp add: hh_col_normalize_def obs_wr_fold Let_def)

lemma hh_col_normalize_frame [simp]:
  "a_w (hh_col_normalize m i st) = a_w st" "a_rv1 (hh_col_normalize m i st) = a_rv1 st"
  "v_tst1 (hh_col_normalize m i st) = v_tst1 st" "v_l (hh_col_normalize m i st) = v_l st"
  by (rule obs_wr_fields [OF hh_col_normalize_obs])+

lemma hh_col_apply_obs [simp]: "obs_wr (hh_col_apply n m i st) = obs_wr st"
  by (simp add: hh_col_apply_def obs_wr_fold Let_def)

lemma hh_col_apply_frame [simp]:
  "a_w (hh_col_apply n m i st) = a_w st" "a_rv1 (hh_col_apply n m i st) = a_rv1 st"
  "v_tst1 (hh_col_apply n m i st) = v_tst1 st" "v_l (hh_col_apply n m i st) = v_l st"
  by (rule obs_wr_fields [OF hh_col_apply_obs])+

lemma hh_col_rescale_obs [simp]: "obs_wr (hh_col_rescale m i st) = obs_wr st"
  by (simp add: hh_col_rescale_def obs_wr_fold Let_def)

lemma hh_col_rescale_frame [simp]:
  "a_w (hh_col_rescale m i st) = a_w st" "a_rv1 (hh_col_rescale m i st) = a_rv1 st"
  "v_tst1 (hh_col_rescale m i st) = v_tst1 st" "v_l (hh_col_rescale m i st) = v_l st"
  by (rule obs_wr_fields [OF hh_col_rescale_obs])+

lemma hh_col_obs [simp]: "obs_wr (hh_col n m i st) = obs_wr st"
  by (simp add: hh_col_def obs_wr_fold Let_def)

lemma hh_col_frame [simp]:
  "a_w (hh_col n m i st) = a_w st" "a_rv1 (hh_col n m i st) = a_rv1 st"
  "v_tst1 (hh_col n m i st) = v_tst1 st" "v_l (hh_col n m i st) = v_l st"
  by (rule obs_wr_fields [OF hh_col_obs])+

lemma hh_row_norm_obs [simp]: "obs_wr (hh_row_norm n i st) = obs_wr st"
  by (simp add: hh_row_norm_def obs_wr_fold Let_def)

lemma hh_row_norm_frame [simp]:
  "a_w (hh_row_norm n i st) = a_w st" "a_rv1 (hh_row_norm n i st) = a_rv1 st"
  "v_tst1 (hh_row_norm n i st) = v_tst1 st" "v_l (hh_row_norm n i st) = v_l st"
  by (rule obs_wr_fields [OF hh_row_norm_obs])+

lemma hh_row_normalize_obs [simp]: "obs_wr (hh_row_normalize n i st) = obs_wr st"
  by (simp add: hh_row_normalize_def obs_wr_fold Let_def)

lemma hh_row_normalize_frame [simp]:
  "a_w (hh_row_normalize n i st) = a_w st" "a_rv1 (hh_row_normalize n i st) = a_rv1 st"
  "v_tst1 (hh_row_normalize n i st) = v_tst1 st" "v_l (hh_row_normalize n i st) = v_l st"
  by (rule obs_wr_fields [OF hh_row_normalize_obs])+

lemma hh_row_apply_obs [simp]: "obs_wr (hh_row_apply n m i st) = obs_wr st"
  by (simp add: hh_row_apply_def obs_wr_fold Let_def)

lemma hh_row_apply_frame [simp]:
  "a_w (hh_row_apply n m i st) = a_w st" "a_rv1 (hh_row_apply n m i st) = a_rv1 st"
  "v_tst1 (hh_row_apply n m i st) = v_tst1 st" "v_l (hh_row_apply n m i st) = v_l st"
  by (rule obs_wr_fields [OF hh_row_apply_obs])+

lemma hh_row_rescale_obs [simp]: "obs_wr (hh_row_rescale n i st) = obs_wr st"
  by (simp add: hh_row_rescale_def obs_wr_fold Let_def)

lemma hh_row_rescale_frame [simp]:
  "a_w (hh_row_rescale n i st) = a_w st" "a_rv1 (hh_row_rescale n i st) = a_rv1 st"
  "v_tst1 (hh_row_rescale n i st) = v_tst1 st" "v_l (hh_row_rescale n i st) = v_l st"
  by (rule obs_wr_fields [OF hh_row_rescale_obs])+

lemma rt_init_obs [simp]: "obs_wr (rt_init n i st) = obs_wr st"
  by (simp add: rt_init_def obs_wr_fold Let_def)

lemma rt_init_frame [simp]:
  "a_w (rt_init n i st) = a_w st" "a_rv1 (rt_init n i st) = a_rv1 st"
  "v_tst1 (rt_init n i st) = v_tst1 st" "v_l (rt_init n i st) = v_l st"
  by (rule obs_wr_fields [OF rt_init_obs])+

lemma rt_apply_obs [simp]: "obs_wr (rt_apply n i st) = obs_wr st"
  by (simp add: rt_apply_def obs_wr_fold Let_def)

lemma rt_apply_frame [simp]:
  "a_w (rt_apply n i st) = a_w st" "a_rv1 (rt_apply n i st) = a_rv1 st"
  "v_tst1 (rt_apply n i st) = v_tst1 st" "v_l (rt_apply n i st) = v_l st"
  by (rule obs_wr_fields [OF rt_apply_obs])+

lemma rt_clear_obs [simp]: "obs_wr (rt_clear n i st) = obs_wr st"
  by (simp add: rt_clear_def obs_wr_fold Let_def)

lemma rt_clear_frame [simp]:
  "a_w (rt_clear n i st) = a_w st" "a_rv1 (rt_clear n i st) = a_rv1 st"
  "v_tst1 (rt_clear n i st) = v_tst1 st" "v_l (rt_clear n i st) = v_l st"
  by (rule obs_wr_fields [OF rt_clear_obs])+

lemma lt_clear_row_obs [simp]: "obs_wr (lt_clear_row n i st) = obs_wr st"
  by (simp add: lt_clear_row_def obs_wr_fold Let_def)

lemma lt_clear_row_frame [simp]:
  "a_w (lt_clear_row n i st) = a_w st" "a_rv1 (lt_clear_row n i st) = a_rv1 st"
  "v_tst1 (lt_clear_row n i st) = v_tst1 st" "v_l (lt_clear_row n i st) = v_l st"
  by (rule obs_wr_fields [OF lt_clear_row_obs])+

lemma lt_apply_obs [simp]: "obs_wr (lt_apply n m i st) = obs_wr st"
  by (simp add: lt_apply_def obs_wr_fold Let_def)

lemma lt_apply_frame [simp]:
  "a_w (lt_apply n m i st) = a_w st" "a_rv1 (lt_apply n m i st) = a_rv1 st"
  "v_tst1 (lt_apply n m i st) = v_tst1 st" "v_l (lt_apply n m i st) = v_l st"
  by (rule obs_wr_fields [OF lt_apply_obs])+

lemma lt_divide_obs [simp]: "obs_wr (lt_divide m i st) = obs_wr st"
  by (simp add: lt_divide_def obs_wr_fold Let_def)

lemma lt_divide_frame [simp]:
  "a_w (lt_divide m i st) = a_w st" "a_rv1 (lt_divide m i st) = a_rv1 st"
  "v_tst1 (lt_divide m i st) = v_tst1 st" "v_l (lt_divide m i st) = v_l st"
  by (rule obs_wr_fields [OF lt_divide_obs])+

lemma lt_clear_col_obs [simp]: "obs_wr (lt_clear_col m i st) = obs_wr st"
  by (simp add: lt_clear_col_def obs_wr_fold Let_def)

lemma lt_clear_col_frame [simp]:
  "a_w (lt_clear_col m i st) = a_w st" "a_rv1 (lt_clear_col m i st) = a_rv1 st"
  "v_tst1 (lt_clear_col m i st) = v_tst1 st" "v_l (lt_clear_col m i st) = v_l st"
  by (rule obs_wr_fields [OF lt_clear_col_obs])+

lemma cancel_rotate_obs [simp]: "obs_wr (cancel_rotate m i st) = obs_wr st"
  by (simp add: cancel_rotate_def obs_wr_fold Let_def)

lemma cancel_rotate_frame [simp]:
  "a_w (cancel_rotate m i st) = a_w st" "a_rv1 (cancel_rotate m i st) = a_rv1 st"
  "v_tst1 (cancel_rotate m i st) = v_tst1 st" "v_l (cancel_rotate m i st) = v_l st"
  by (rule obs_wr_fields [OF cancel_rotate_obs])+

lemma qr_rotate_V_obs [simp]: "obs_wr (qr_rotate_V n i1 i st) = obs_wr st"
  by (simp add: qr_rotate_V_def obs_wr_fold Let_def)

lemma qr_rotate_V_frame [simp]:
  "a_w (qr_rotate_V n i1 i st) = a_w st" "a_rv1 (qr_rotate_V n i1 i st) = a_rv1 st"
  "v_tst1 (qr_rotate_V n i1 i st) = v_tst1 st" "v_l (qr_rotate_V n i1 i st) = v_l st"
  by (rule obs_wr_fields [OF qr_rotate_V_obs])+

lemma qr_rotate_A_obs [simp]: "obs_wr (qr_rotate_A m i1 i st) = obs_wr st"
  by (simp add: qr_rotate_A_def obs_wr_fold Let_def)

lemma qr_rotate_A_frame [simp]:
  "a_w (qr_rotate_A m i1 i st) = a_w st" "a_rv1 (qr_rotate_A m i1 i st) = a_rv1 st"
  "v_tst1 (qr_rotate_A m i1 i st) = v_tst1 st" "v_l (qr_rotate_A m i1 i st) = v_l st"
  by (rule obs_wr_fields [OF qr_rotate_A_obs])+

subsection \<open>The Householder phase leaves \<open>rv1[0] = 0\<close>\<close>

lemma hh_row_store_frame [simp]:
  "a_w (hh_row_store n i st) = a_w st" "v_tst1 (hh_row_store n i st) = v_tst1 st"
  "v_l (hh_row_store n i st) = v_l st" "length (a_rv1 (hh_row_store n i st)) = length (a_rv1 st)"
proof -
  have "a_w (hh_row_store n i st) = a_w st \<and> v_tst1 (hh_row_store n i st) = v_tst1 st
      \<and> v_l (hh_row_store n i st) = v_l st \<and> length (a_rv1 (hh_row_store n i st)) = length (a_rv1 st)"
    unfolding hh_row_store_def
    by (rule fold_preserves [where P = "\<lambda>s. a_w s = a_w st \<and> v_tst1 s = v_tst1 st \<and> v_l s = v_l st
          \<and> length (a_rv1 s) = length (a_rv1 st)"]) simp_all
  then show "a_w (hh_row_store n i st) = a_w st" "v_tst1 (hh_row_store n i st) = v_tst1 st"
    "v_l (hh_row_store n i st) = v_l st" "length (a_rv1 (hh_row_store n i st)) = length (a_rv1 st)"
    by simp_all
qed


lemma hh_row_frame [simp]:
  "a_w (hh_row n m i st) = a_w st" "v_tst1 (hh_row n m i st) = v_tst1 st"
  "length (a_rv1 (hh_row n m i st)) = length (a_rv1 st)"
  by (simp_all add: hh_row_def Let_def)


lemma householder_step_frame [simp]:
  "length (a_w (householder_step n m i st)) = length (a_w st)"
  "length (a_rv1 (householder_step n m i st)) = length (a_rv1 st)"
  by (simp_all add: householder_step_def Let_def)




subsection \<open>The accumulation phases do not touch \<open>w\<close>, \<open>rv1\<close> and \<open>tst1\<close>\<close>

lemma right_step_frame [simp]:
  "a_w (right_step n i st) = a_w st" "a_rv1 (right_step n i st) = a_rv1 st"
  "v_tst1 (right_step n i st) = v_tst1 st"
  by (simp_all add: right_step_def Let_def)

lemma left_step_frame [simp]:
  "a_w (left_step n m i st) = a_w st" "a_rv1 (left_step n m i st) = a_rv1 st"
  "v_tst1 (left_step n m i st) = v_tst1 st"
  by (simp_all add: left_step_def Let_def)

lemma accumulate_right_frame [simp]:
  "a_w (accumulate_right n st) = a_w st" "a_rv1 (accumulate_right n st) = a_rv1 st"
  "v_tst1 (accumulate_right n st) = v_tst1 st"
proof -
  have "a_w (accumulate_right n st) = a_w st \<and> a_rv1 (accumulate_right n st) = a_rv1 st
      \<and> v_tst1 (accumulate_right n st) = v_tst1 st"
    unfolding accumulate_right_def
    by (rule fold_preserves [where P = "\<lambda>s. a_w s = a_w st \<and> a_rv1 s = a_rv1 st \<and> v_tst1 s = v_tst1 st"])
       simp_all
  then show "a_w (accumulate_right n st) = a_w st" "a_rv1 (accumulate_right n st) = a_rv1 st"
    "v_tst1 (accumulate_right n st) = v_tst1 st"
    by simp_all
qed

lemma accumulate_left_frame [simp]:
  "a_w (accumulate_left n m st) = a_w st" "a_rv1 (accumulate_left n m st) = a_rv1 st"
  "v_tst1 (accumulate_left n m st) = v_tst1 st"
proof -
  have "a_w (accumulate_left n m st) = a_w st \<and> a_rv1 (accumulate_left n m st) = a_rv1 st
      \<and> v_tst1 (accumulate_left n m st) = v_tst1 st"
    unfolding accumulate_left_def
    by (rule fold_preserves [where P = "\<lambda>s. a_w s = a_w st \<and> a_rv1 s = a_rv1 st \<and> v_tst1 s = v_tst1 st"])
       simp_all
  then show "a_w (accumulate_left n m st) = a_w st" "a_rv1 (accumulate_left n m st) = a_rv1 st"
    "v_tst1 (accumulate_left n m st) = v_tst1 st"
    by simp_all
qed

subsection \<open>What one pass of the diagonalization changes\<close>


lemma agree_off_refl [simp]: "agree_off S st st"
  by (simp add: agree_off_def)

lemma agree_off_updates [simp]:
  "agree_off S st0 (a_A_update u1 st) = agree_off S st0 st"
  "agree_off S st0 (a_V_update u2 st) = agree_off S st0 st"
  "agree_off S st0 (v_c_update u3 st) = agree_off S st0 st"
  "agree_off S st0 (v_f_update u4 st) = agree_off S st0 st"
  "agree_off S st0 (v_g_update u5 st) = agree_off S st0 st"
  "agree_off S st0 (v_h_update u6 st) = agree_off S st0 st"
  "agree_off S st0 (v_s_update u7 st) = agree_off S st0 st"
  "agree_off S st0 (v_scale_update u8 st) = agree_off S st0 st"
  "agree_off S st0 (v_x_update u9 st) = agree_off S st0 st"
  "agree_off S st0 (v_y_update u10 st) = agree_off S st0 st"
  "agree_off S st0 (v_z_update u11 st) = agree_off S st0 st"
  "agree_off S st0 (v_l1_update u12 st) = agree_off S st0 st"
  "agree_off S st0 (v_docancel_update u13 st) = agree_off S st0 st"
  by (simp_all add: agree_off_def)

lemma agree_off_rotations [simp]:
  "agree_off S st0 (cancel_rotate m i st) = agree_off S st0 st"
  "agree_off S st0 (qr_rotate_V n i1 i st) = agree_off S st0 st"
  "agree_off S st0 (qr_rotate_A m i1 i st) = agree_off S st0 st"
  by (simp_all add: agree_off_def)

lemma agree_off_write:
  assumes "agree_off S st0 st" "i \<in> S"
  shows "agree_off S st0 (st\<lparr>a_rv1 := (a_rv1 st)[i := r]\<rparr>)"
    and "agree_off S st0 (st\<lparr>a_w := (a_w st)[i := r]\<rparr>)"
proof -
  have "i \<noteq> j" if "j \<notin> S" for j
    using that assms(2) by auto
  then show "agree_off S st0 (st\<lparr>a_rv1 := (a_rv1 st)[i := r]\<rparr>)"
    and "agree_off S st0 (st\<lparr>a_w := (a_w st)[i := r]\<rparr>)"
    using assms(1) by (simp_all add: agree_off_def)
qed



lemma agree_off_trans:
  "agree_off S st0 st1 \<Longrightarrow> agree_off S st1 st2 \<Longrightarrow> agree_off S st0 st2"
  by (simp add: agree_off_def)

lemma split_search_result:
  assumes "split_search l st = Inr s'"
  shows "a_w s' = a_w st \<and> a_rv1 s' = a_rv1 st \<and> v_tst1 s' = v_tst1 st \<and> v_l s' \<le> l
       \<and> (v_docancel s' \<longrightarrow> 0 < v_l s')"
  using assms
proof (induction l arbitrary: st)
  case 0
  then show ?case by (auto simp: Let_def split: if_splits)
next
  case (Suc l)
  show ?case
  proof (cases "\<bar>a_rv1 st ! Suc l\<bar> + v_tst1 st = v_tst1 st")
    case True
    then show ?thesis using Suc.prems by (auto simp: Let_def)
  next
    case False
    note first = this
    show ?thesis
    proof (cases "\<bar>a_w st ! l\<bar> + v_tst1 st = v_tst1 st")
      case True
      then show ?thesis using Suc.prems first by (auto simp: Let_def)
    next
      case False
      then have "split_search l (st\<lparr>v_l := Suc l, v_l1 := int (Suc l) - 1\<rparr>) = Inr s'"
        using Suc.prems first by (simp add: Let_def)
      from Suc.IH [OF this] show ?thesis by simp
    qed
  qed
qed


lemma cancel_loop_agree:
  assumes "set js \<subseteq> S" "agree_off S st0 st"
  shows "agree_off S st0 (cancel_loop m js st)"
  using assms
proof (induction js arbitrary: st)
  case Nil
  then show ?case by simp
next
  case (Cons i js)
  let ?s1 = "st\<lparr>v_f := v_s st * a_rv1 st ! i\<rparr>"
  let ?s2 = "?s1\<lparr>a_rv1 := (a_rv1 ?s1)[i := v_c ?s1 * a_rv1 ?s1 ! i]\<rparr>"
  let ?s3 = "?s2\<lparr>v_g := a_w ?s2 ! i\<rparr>"
  let ?s4 = "?s3\<lparr>v_h := hypot (v_f ?s3) (v_g ?s3)\<rparr>"
  let ?s5 = "?s4\<lparr>a_w := (a_w ?s4)[i := v_h ?s4]\<rparr>"
  have i: "i \<in> S" and js: "set js \<subseteq> S"
    using Cons.prems(1) by simp_all
  have "agree_off S st0 ?s1"
    using Cons.prems(2) by simp
  then have s2: "agree_off S st0 ?s2"
    using i by (rule agree_off_write)
  then have "agree_off S st0 ?s4"
    by simp
  then have s5: "agree_off S st0 ?s5"
    using i by (rule agree_off_write)
  show ?case
  proof (cases "\<bar>v_f ?s2\<bar> + v_tst1 ?s2 = v_tst1 ?s2")
    case True
    then have "cancel_loop m (i # js) st = ?s2"
      by (simp add: Let_def)
    then show ?thesis using s2 by simp
  next
    case False
    let ?s8 = "cancel_rotate m i (?s5\<lparr>v_c := v_g ?s5 / v_h ?s5, v_s := - v_f ?s5 / v_h ?s5\<rparr>)"
    have "cancel_loop m (i # js) st = cancel_loop m js ?s8"
      using False by (simp add: Let_def)
    moreover have "agree_off S st0 ?s8"
      using s5 by simp
    ultimately show ?thesis
      using Cons.IH [OF js] by simp
  qed
qed

lemma cancellation_agree: "agree_off {v_l st..k} st (cancellation m k st)"
  unfolding cancellation_def by (rule cancel_loop_agree) auto






lemma make_nonneg_frame [simp]: "a_rv1 (make_nonneg n k st) = a_rv1 st"
proof -
  have "a_rv1 (fold (\<lambda>j st. st\<lparr>a_V := mat_set (a_V st) j k (- a_V st ! j ! k)\<rparr>) [0..<n] s) = a_rv1 s"
    for s :: svd_state
    by (rule fold_preserves [where P = "\<lambda>t. a_rv1 t = a_rv1 s"]) simp_all
  then show ?thesis
    by (simp add: make_nonneg_def Let_def)
qed


lemma svd_attempt_unfold:
  assumes "split_search k (st\<lparr>v_docancel := True, v_l1 := - 1\<rparr>) = Inr s1"
    and "s2 = (if v_docancel s1 then cancellation m k s1 else s1)"
    and "s3 = s2\<lparr>v_z := a_w s2 ! k\<rparr>"
  shows "svd_attempt n m k st
       = (if v_l s3 \<noteq> k then Inr (False, qr_step n m k s3) else Inr (True, make_nonneg n k s3))"
  using assms by (simp add: svd_attempt_def Let_def)



subsection \<open>The diagonalization as a whole\<close>



text \<open>The state in which the diagonalization begins.\<close>

lemma svd_unfold:
  assumes "0 < n" "0 < m"
  shows "svd A n m w V rv
       = diagonalize (nat n) (nat m)
           (accumulate_left (nat n) (nat m) (accumulate_right (nat n)
              (householder (nat n) (nat m) (svd_init A w V rv))))"
  using assms by (simp add: svd_def Let_def)



text \<open>A run on the \<open>1 \<times> 1\<close> matrix \<open>(1)\<close>: the Householder step leaves \<open>w = [-1]\<close>, the
  diagonalization finds \<open>l = k = 0\<close> at once and flips the sign of \<open>w[0]\<close> and of \<open>V\<close>.\<close>

lemma svd_example:
  "svd [[1]] 1 1 [0] [[0]] [0]
     = Inr \<lparr>a_A = [[- 1]], a_V = [[- 1]], a_w = [1], a_rv1 = [0], v_l = 0, v_tst1 = 1, v_c = 0,
            v_f = 1, v_g = - 1, v_h = - 2, v_s = 0, v_scale = 0, v_x = 0, v_y = 0, v_z = - 1,
            v_l1 = - 1, v_docancel = False\<rparr>"
proof -
  let ?h = "\<lparr>a_A = [[2]], a_V = [[0]], a_w = [- 1], a_rv1 = [0], v_l = Suc 0, v_tst1 = 1, v_c = 0,
            v_f = 1, v_g = 0, v_h = - 2, v_s = 0, v_scale = 0, v_x = 0, v_y = 0, v_z = 0,
            v_l1 = - 1, v_docancel = True\<rparr>"
  let ?a = "\<lparr>a_A = [[- 1]], a_V = [[1]], a_w = [- 1], a_rv1 = [0], v_l = Suc 0, v_tst1 = 1, v_c = 0,
            v_f = 1, v_g = - 1, v_h = - 2, v_s = 0, v_scale = 0, v_x = 0, v_y = 0, v_z = 0,
            v_l1 = - 1, v_docancel = True\<rparr>"
  let ?d = "\<lparr>a_A = [[- 1]], a_V = [[- 1]], a_w = [1], a_rv1 = [0], v_l = 0, v_tst1 = 1, v_c = 0,
            v_f = 1, v_g = - 1, v_h = - 2, v_s = 0, v_scale = 0, v_x = 0, v_y = 0, v_z = - 1,
            v_l1 = - 1, v_docancel = False\<rparr>"
  have h: "householder (nat 1) (nat 1) (svd_init [[1]] [0] [[0]] [0]) = ?h"
    by (simp add: svd_init_def householder_def householder_step_def hh_col_def hh_col_norm_def
        hh_col_normalize_def hh_col_rescale_def mat_set_def copysign_def Let_def)
  have r: "accumulate_right (nat 1) ?h = ?h\<lparr>a_V := [[1]], v_l := 0\<rparr>"
    by (simp add: accumulate_right_def right_step_def mat_set_def Let_def)
  have a: "accumulate_left (nat 1) (nat 1) (?h\<lparr>a_V := [[1]], v_l := 0\<rparr>) = ?a"
    by (simp add: accumulate_left_def left_step_def lt_apply_def lt_divide_def mat_set_def Let_def)
  have t: "svd_attempt (nat 1) (nat 1) 0 ?a = Inr (True, ?d)"
    by (simp add: svd_attempt_def make_nonneg_def mat_set_def Let_def)
  have s: "svd_sweep (nat 1) (nat 1) 0 0 ?a = Inr ?d"
    using t by (simp add: SVD_NMAX_def)
  have d: "diagonalize (nat 1) (nat 1) ?a = Inr ?d"
    using s by (simp add: diagonalize_def)
  show ?thesis
    using h r a d by (simp add: svd_def)
qed





subsection \<open>Leaving the loop\<close>

lemma split_search_arrays:
  assumes "split_search l st = Inr s'"
  shows "a_A s' = a_A st \<and> a_V s' = a_V st"
  using assms
proof (induction l arbitrary: st)
  case 0
  then show ?case by (auto simp: Let_def split: if_splits)
next
  case (Suc l)
  show ?case
  proof (cases "\<bar>a_rv1 st ! Suc l\<bar> + v_tst1 st = v_tst1 st")
    case True
    then show ?thesis using Suc.prems by (auto simp: Let_def)
  next
    case False
    note first = this
    show ?thesis
    proof (cases "\<bar>a_w st ! l\<bar> + v_tst1 st = v_tst1 st")
      case True
      then show ?thesis using Suc.prems first by (auto simp: Let_def)
    next
      case False
      then have "split_search l (st\<lparr>v_l := Suc l, v_l1 := int (Suc l) - 1\<rparr>) = Inr s'"
        using Suc.prems first by (simp add: Let_def)
      from Suc.IH [OF this] show ?thesis by simp
    qed
  qed
qed

lemma cancel_rotate_V [simp]: "a_V (cancel_rotate m i st) = a_V st"
  unfolding cancel_rotate_def
  by (rule fold_preserves [where P = "\<lambda>s. a_V s = a_V st"]) (simp_all add: Let_def)

lemma cancel_loop_V [simp]: "a_V (cancel_loop m js st) = a_V st"
proof (induction js arbitrary: st)
  case Nil
  show ?case by simp
next
  case (Cons i js)
  show ?case
    by (simp add: Let_def Cons.IH)
qed

lemma cancellation_V [simp]: "a_V (cancellation m k st) = a_V st"
  by (simp add: cancellation_def)

text \<open>The loop \<^verbatim>\<open>for (j = 0; j < n; j++) V[j][k] = -V[j][k];\<close> negates column \<open>k\<close>.\<close>

lemma negate_column_matrix:
  "J \<le> length M \<Longrightarrow>
   fold (\<lambda>j M. mat_set M j k (- M ! j ! k)) [0..<J] M
     = map (\<lambda>j. if j < J then (M ! j)[k := - M ! j ! k] else M ! j) [0..<length M]"
proof (induction J)
  case 0
  then show ?case by (simp add: map_nth)
next
  case (Suc J)
  then have J: "J < length M" by simp
  let ?M' = "map (\<lambda>j. if j < J then (M ! j)[k := - M ! j ! k] else M ! j) [0..<length M]"
  have "fold (\<lambda>j M. mat_set M j k (- M ! j ! k)) [0..<Suc J] M = mat_set ?M' J k (- ?M' ! J ! k)"
    using Suc by simp
  also have "\<dots> = map (\<lambda>j. if j < Suc J then (M ! j)[k := - M ! j ! k] else M ! j) [0..<length M]"
    using J by (auto simp: mat_set_def intro!: nth_equalityI simp: nth_list_update)
  finally show ?case .
qed

lemma negate_column_state:
  "fold (\<lambda>j st. st\<lparr>a_V := mat_set (a_V st) j k (- a_V st ! j ! k)\<rparr>) js st
     = st\<lparr>a_V := fold (\<lambda>j M. mat_set M j k (- M ! j ! k)) js (a_V st)\<rparr>"
  by (induction js arbitrary: st) simp_all

lemma make_nonneg_negative:
  assumes "v_z st < 0" "is_matrix n n (a_V st)"
  shows "make_nonneg n k st
       = st\<lparr>a_w := (a_w st)[k := - v_z st], a_V := map (\<lambda>j. (a_V st ! j)[k := - a_V st ! j ! k]) [0..<n]\<rparr>"
proof -
  have len: "length (a_V st) = n"
    using assms(2) by (simp add: is_matrix_def)
  have "fold (\<lambda>j M. mat_set M j k (- M ! j ! k)) [0..<n] (a_V st)
      = map (\<lambda>j. (a_V st ! j)[k := - a_V st ! j ! k]) [0..<n]"
    using negate_column_matrix [of n "a_V st" k] len by simp
  then show ?thesis
    using assms(1) by (simp add: make_nonneg_def Let_def negate_column_state)
qed

text \<open>
  Claim C7. Let the splitting search for the target index \<open>k\<close> end with \<open>l = k\<close>, and let \<open>s2\<close>
  be the state at the convergence test (after the cancellation loop, if that ran). Then the
  pass leaves the loop through \<^verbatim>\<open>break\<close>, and on the way only does this: if \<open>w[k] < 0\<close> it
  replaces \<open>w[k]\<close> by \<open>-w[k]\<close> and negates every entry of column \<open>k\<close> of \<open>V\<close>; if
  \<open>w[k] \<ge> 0\<close> it changes none of the arrays. Either way \<open>w[k] \<ge> 0\<close> afterwards.
\<close>

theorem svd_attempt_converged:
  assumes "split_search k (st\<lparr>v_docancel := True, v_l1 := - 1\<rparr>) = Inr s1" and "v_l s1 = k"
    and "s2 = (if v_docancel s1 then cancellation m k s1 else s1)"
    and "is_matrix n n (a_V st)" and "length (a_w st) = n" and "k < n"
  shows "\<exists>st'. svd_attempt n m k st = Inr (True, st')
      \<and> a_A st' = a_A s2 \<and> a_rv1 st' = a_rv1 s2 \<and> a_V s2 = a_V st
      \<and> (a_w s2 ! k < 0 \<longrightarrow>
            a_w st' = (a_w s2)[k := - (a_w s2 ! k)]
          \<and> (\<forall>j < n. \<forall>c < n. a_V st' ! j ! c = (if c = k then - (a_V st ! j ! k) else a_V st ! j ! c)))
      \<and> (0 \<le> a_w s2 ! k \<longrightarrow> a_w st' = a_w s2 \<and> a_V st' = a_V st)
      \<and> 0 \<le> a_w st' ! k"
proof -
  define s3 where "s3 = s2\<lparr>v_z := a_w s2 ! k\<rparr>"
  have V1: "a_V s1 = a_V st"
    using split_search_arrays [OF assms(1)] by simp
  have V2: "a_V s2 = a_V st"
    using V1 by (simp add: assms(3))
  have w1: "a_w s1 = a_w st"
    using split_search_result [OF assms(1)] by simp
  have "agree_off {v_l s1..k} s1 s2"
    unfolding assms(3) by (simp add: cancellation_agree)
  then have l2: "v_l s2 = k" and len2: "length (a_w s2) = n"
    using assms(2,5) w1 by (simp_all add: agree_off_def)
  have run: "svd_attempt n m k st = Inr (True, make_nonneg n k s3)"
    using svd_attempt_unfold [OF assms(1,3) s3_def, of n] l2 by (simp add: s3_def)
  have mat3: "is_matrix n n (a_V s3)"
    using assms(4) V2 by (simp add: s3_def)
  show ?thesis
  proof (cases "a_w s2 ! k < 0")
    case True
    then have z: "v_z s3 < 0"
      by (simp add: s3_def)
    have eq: "make_nonneg n k s3
        = s3\<lparr>a_w := (a_w s3)[k := - v_z s3], a_V := map (\<lambda>j. (a_V s3 ! j)[k := - a_V s3 ! j ! k]) [0..<n]\<rparr>"
      by (rule make_nonneg_negative [OF z mat3])
    have rows: "length (a_V st ! j) = n" if "j < n" for j
      using assms(4) that by (simp add: is_matrix_def)
    show ?thesis
      unfolding run eq using True V2 len2 assms(6) rows
      by (simp add: s3_def nth_list_update)
  next
    case False
    then have "make_nonneg n k s3 = s3"
      by (simp add: make_nonneg_def s3_def)
    then show ?thesis
      unfolding run using False V2 by (simp add: s3_def)
  qed
qed

theorem svd_attempt_converged_witness:
  "\<exists>st'. svd_attempt 2 2 1 (svd_init [[1, 0], [0, 1]] [3, - 5] [[1, 2], [3, 4]] [0, 0]) = Inr (True, st')
      \<and> a_w st' = [3, 5] \<and> a_V st' ! 0 ! 1 = - 2 \<and> a_V st' ! 1 ! 1 = - 4 \<and> a_V st' ! 0 ! 0 = 1"
proof -
  let ?st = "svd_init [[1, 0], [0, 1]] [3, - 5] [[1, 2], [3, 4]] [0, 0]"
  let ?s1 = "?st\<lparr>v_docancel := False, v_l1 := - 1, v_l := 1\<rparr>"
  have search: "split_search 1 (?st\<lparr>v_docancel := True, v_l1 := - 1\<rparr>) = Inr ?s1"
    by (simp add: svd_init_def Let_def)
  have s2: "?s1 = (if v_docancel ?s1 then cancellation 2 1 ?s1 else ?s1)"
    by simp
  have shape: "is_matrix 2 2 (a_V ?st)" "length (a_w ?st) = 2"
    by (simp_all add: svd_init_def is_matrix_def)
  obtain st' where run: "svd_attempt 2 2 1 ?st = Inr (True, st')"
    and neg: "a_w ?s1 ! 1 < 0 \<longrightarrow>
            a_w st' = (a_w ?s1)[1 := - (a_w ?s1 ! 1)]
          \<and> (\<forall>j < 2. \<forall>c < 2. a_V st' ! j ! c = (if c = 1 then - (a_V ?st ! j ! 1) else a_V ?st ! j ! c))"
    using svd_attempt_converged [OF search _ s2 shape] by auto
  have w: "a_w st' = [3, 5]" and V: "\<forall>j < 2. \<forall>c < 2. a_V st' ! j ! c = (if c = 1 then - (a_V ?st ! j ! 1) else a_V ?st ! j ! c)"
    using neg by (simp_all add: svd_init_def)
  have "a_V st' ! 0 ! 1 = - 2" "a_V st' ! 1 ! 1 = - 4" "a_V st' ! 0 ! 0 = 1"
    using V [rule_format, of 0 1] V [rule_format, of 1 1] V [rule_format, of 0 0]
    by (simp_all add: svd_init_def)
  then show ?thesis
    using run w by simp
qed

subsection \<open>The iteration cap\<close>

lemma split_search_error: "split_search l st = Inl e \<Longrightarrow> e = OutOfBounds"
proof (induction l arbitrary: st)
  case 0
  then show ?case by (auto simp: Let_def split: if_splits)
next
  case (Suc l)
  then show ?case by (auto simp: Let_def split: if_splits)
qed

lemma svd_attempt_error: "svd_attempt n m k st = Inl e \<Longrightarrow> e = OutOfBounds"
  by (auto simp: svd_attempt_def Let_def split: sum.splits if_splits dest: split_search_error)

lemma attempts_error: "attempts n m k j st = Inl e \<Longrightarrow> e = OutOfBounds"
proof (induction j arbitrary: st)
  case 0
  then show ?case by simp
next
  case (Suc j)
  then show ?case
    by (auto split: sum.splits bool.splits dest: svd_attempt_error)
qed

lemma svd_sweep_attempts:
  assumes "its \<le> SVD_NMAX"
  shows "svd_sweep n m k its st
       = (case attempts n m k (SVD_NMAX - its) st of
            Inl e \<Rightarrow> Inl e
          | Inr (True, s) \<Rightarrow> Inr s
          | Inr (False, s) \<Rightarrow> Inl NoConvergence)"
  using assms
proof (induction n m k its st rule: svd_sweep.induct)
  case (1 n m k its st)
  show ?case
  proof (cases "its + 1 > SVD_NMAX")
    case True
    then have "SVD_NMAX - its = 0"
      by simp
    then show ?thesis
      using True by (simp add: svd_sweep.simps [of n m k its st])
  next
    case False
    then have suc: "SVD_NMAX - its = Suc (SVD_NMAX - (its + 1))" and le: "its + 1 \<le> SVD_NMAX"
      by simp_all
    show ?thesis
    proof (cases "svd_attempt n m k st")
      case (Inl e)
      then show ?thesis
        using False unfolding suc by (simp add: svd_sweep.simps [of n m k its st])
    next
      case (Inr r)
      obtain b s' where r: "r = (b, s')"
        by (cases r)
      show ?thesis
      proof (cases b)
        case True
        then show ?thesis
          using False Inr r unfolding suc by (simp add: svd_sweep.simps [of n m k its st])
      next
        case nb: False
        have "svd_sweep n m k its st = svd_sweep n m k (its + 1) s'"
          using False Inr r nb by (simp add: svd_sweep.simps [of n m k its st])
        also have "\<dots> = (case attempts n m k (SVD_NMAX - (its + 1)) s' of
            Inl e \<Rightarrow> Inl e
          | Inr (True, s) \<Rightarrow> Inr s
          | Inr (False, s) \<Rightarrow> Inl NoConvergence)"
          using "1.IH" [OF False Inr r [symmetric] _ le] nb by simp
        finally show ?thesis
          using Inr r nb unfolding suc by simp
      qed
    qed
  qed
qed

lemma svd_sweep_cases:
  "(svd_sweep n m k 0 st = Inl NoConvergence \<longleftrightarrow> (\<exists>s'. attempts n m k SVD_NMAX st = Inr (False, s')))
 \<and> (svd_sweep n m k 0 st = Inr s \<longleftrightarrow> attempts n m k SVD_NMAX st = Inr (True, s))"
  using svd_sweep_attempts [of 0 n m k st] attempts_error [of n m k SVD_NMAX st]
  by (auto split: sum.splits bool.splits)

lemma diag_loop_entries:
  "(diag_loop n m ks st = Inl NoConvergence
      \<longleftrightarrow> (\<exists>(k, s) \<in> set (diag_entries n m ks st). \<exists>s'. attempts n m k SVD_NMAX s = Inr (False, s')))
 \<and> ((\<exists>st'. diag_loop n m ks st = Inr st')
      \<longleftrightarrow> map fst (diag_entries n m ks st) = ks
        \<and> (\<forall>(k, s) \<in> set (diag_entries n m ks st). \<exists>s'. attempts n m k SVD_NMAX s = Inr (True, s')))"
proof (induction ks arbitrary: st)
  case Nil
  show ?case by simp
next
  case (Cons k ks)
  show ?case
  proof (cases "svd_sweep n m k 0 st")
    case (Inl e)
    show ?thesis
    proof (cases "e = NoConvergence")
      case True
      then obtain s' where "attempts n m k SVD_NMAX st = Inr (False, s')"
        using Inl svd_sweep_cases [of n m k st] by blast
      then show ?thesis
        using Inl True by simp
    next
      case False
      then have "\<not> (\<exists>s'. attempts n m k SVD_NMAX st = Inr (False, s'))"
        using Inl svd_sweep_cases [of n m k st] by auto
      moreover have "\<not> (\<exists>s'. attempts n m k SVD_NMAX st = Inr (True, s'))"
        using Inl svd_sweep_cases [of n m k st] by auto
      ultimately show ?thesis
        using Inl False by simp
    qed
  next
    case (Inr s)
    then have att: "attempts n m k SVD_NMAX st = Inr (True, s)"
      using svd_sweep_cases [of n m k st s] by simp
    show ?thesis
      using Inr att Cons.IH [of s] by simp
  qed
qed

text \<open>
  Claim C5. Let \<open>es\<close> list the target indices whose loop \<open>svd\<close> enters, with the state on
  entry. \<open>svd\<close> ends in \<open>NoConvergence\<close> exactly when for one of them \<open>SVD_NMAX\<close> = 40 passes
  through the loop body go by without the loop being left (\<open>l = k\<close>); and \<open>svd\<close> returns
  normally exactly when every target index \<open>n-1, ..., 0\<close> is entered and leaves its loop
  within 40 passes. The same holds of the loop for a single index, from any state.
\<close>

theorem svd_convergence_cap:
  assumes "0 < n" and "0 < m"
    and "st0 = accumulate_left (nat n) (nat m) (accumulate_right (nat n)
                 (householder (nat n) (nat m) (svd_init A w V rv)))"
    and "es = diag_entries (nat n) (nat m) (rev [0..<nat n]) st0"
  shows "(svd A n m w V rv = Inl NoConvergence
            \<longleftrightarrow> (\<exists>(k, s) \<in> set es. \<exists>s'. attempts (nat n) (nat m) k SVD_NMAX s = Inr (False, s')))
       \<and> ((\<exists>st'. svd A n m w V rv = Inr st')
            \<longleftrightarrow> map fst es = rev [0..<nat n]
              \<and> (\<forall>(k, s) \<in> set es. \<exists>s'. attempts (nat n) (nat m) k SVD_NMAX s = Inr (True, s')))
       \<and> (\<forall>k s. (svd_sweep (nat n) (nat m) k 0 s = Inl NoConvergence
                    \<longleftrightarrow> (\<exists>s'. attempts (nat n) (nat m) k SVD_NMAX s = Inr (False, s'))))"
proof -
  have "svd A n m w V rv = diag_loop (nat n) (nat m) (rev [0..<nat n]) st0"
    unfolding svd_unfold [OF assms(1,2)] diagonalize_def assms(3) by (rule refl)
  then show ?thesis
    using diag_loop_entries [of "nat n" "nat m" "rev [0..<nat n]" st0] svd_sweep_cases [of "nat n" "nat m"]
    unfolding assms(4) by simp
qed

theorem svd_convergence_cap_witness:
  "\<exists>s s'. diag_entries (nat 1) (nat 1) (rev [0..<nat 1])
             (accumulate_left (nat 1) (nat 1) (accumulate_right (nat 1)
                (householder (nat 1) (nat 1) (svd_init [[1]] [0] [[0]] [0])))) = [(0, s)]
         \<and> attempts (nat 1) (nat 1) 0 SVD_NMAX s = Inr (True, s')"
proof -
  let ?st0 = "accumulate_left (nat 1) (nat 1) (accumulate_right (nat 1)
                (householder (nat 1) (nat 1) (svd_init [[1]] [0] [[0]] [0])))"
  let ?es = "diag_entries (nat 1) (nat 1) (rev [0..<nat 1]) ?st0"
  have ex: "\<exists>st'. svd [[1]] 1 1 [0] [[0]] [0] = Inr st'"
    using svd_example by blast
  have fact: "map fst ?es = rev [0..<nat 1]
      \<and> (\<forall>(k, s) \<in> set ?es. \<exists>s'. attempts (nat 1) (nat 1) k SVD_NMAX s = Inr (True, s'))"
    using svd_convergence_cap [of 1 1 ?st0 "[[1]]" "[0]" "[[0]]" "[0]" ?es, OF zero_less_one zero_less_one refl refl] ex
    by blast
  then have "map fst ?es = [0]"
    by simp
  then obtain s where es: "?es = [(0, s)]"
    by (cases ?es) auto
  then obtain s' where "attempts (nat 1) (nat 1) 0 SVD_NMAX s = Inr (True, s')"
    using fact by auto
  then show ?thesis
    using es by blast
qed

end
